theory Spec2Isabelle
  imports Complex_Main "HOL-Library.Multiset" "HOL-Library.Log_Nat"
begin

section \<open>Data model\<close>

text \<open>
  A stat block of the source carries six sub-ratings and a derived \<open>overall\<close>. The
  functions modelled here read \<open>overall\<close> only, so the record keeps that field.
  An absent block (\<open>undefined\<close>/\<open>null\<close> in the source, tested by truthiness) is
  \<open>None\<close>.
\<close>

record stats =
  overall :: int

text \<open>
  A player object. \<open>player_id\<close> is the source's \<open>id\<close>, a number only ever compared
  for equality. Position codes are strings, as in the source. \<open>assignedPosition\<close> and
  \<open>tempRatingAdjustment\<close> are the two fields the generator writes; the latter is a
  JavaScript number, modelled by a rational.
\<close>

record player =
  player_id :: nat
  player_name :: string
  positions :: "string list"
  preferredPosition :: string
  outfieldStats :: "stats option"
  gkStats :: "stats option"
  assignedPosition :: "string option"
  tempRatingAdjustment :: "rat option"

section \<open>Ratings (PlayerManager.js)\<close>

definition getPlayerOverallRating :: "player \<Rightarrow> int" where
  "getPlayerOverallRating p =
     (if gkStats p \<noteq> None \<and> outfieldStats p \<noteq> None then
        (if preferredPosition p = ''GK'' then overall (the (gkStats p))
         else overall (the (outfieldStats p)))
      else if gkStats p \<noteq> None then overall (the (gkStats p))
      else if outfieldStats p \<noteq> None then overall (the (outfieldStats p))
      else 75)"

definition getPlayerRatingForPosition :: "player \<Rightarrow> string \<Rightarrow> int" where
  "getPlayerRatingForPosition p pos =
     (if pos = ''GK'' \<and> gkStats p \<noteq> None then overall (the (gkStats p))
      else if outfieldStats p \<noteq> None then overall (the (outfieldStats p))
      else if gkStats p \<noteq> None then max (overall (the (gkStats p)) - 20) 40
      else 75)"

section \<open>Team sizes (UIManager.js)\<close>

text \<open>
  \<open>calculateTeamSizes\<close> is called with an array length and a team count; both are
  naturals here. \<open>Array.from({length: numTeams}, f)\<close> is \<open>map f [0..<numTeams]\<close>.
\<close>

definition calculateTeamSizes :: "nat \<Rightarrow> nat \<Rightarrow> nat list" where
  "calculateTeamSizes totalPlayers numTeams =
     (let baseSize = totalPlayers div numTeams;
          extraPlayers = totalPlayers mod numTeams
      in map (\<lambda>i. baseSize + (if i < extraPlayers then 1 else 0)) [0..<numTeams])"

text \<open>
  \<open>generateTeams\<close> computes the same sizes inline, pushing one entry per iteration of
  \<open>for (let i = 0; i < numTeams; i++)\<close>.
\<close>

function targetTeamSizes_loop :: "nat \<Rightarrow> nat \<Rightarrow> nat \<Rightarrow> nat \<Rightarrow> nat list \<Rightarrow> nat list" where
  "targetTeamSizes_loop basePlayersPerTeam extraPlayers numTeams i targetTeamSizes =
     (if i < numTeams then
        targetTeamSizes_loop basePlayersPerTeam extraPlayers numTeams (i + 1)
          (targetTeamSizes @ [basePlayersPerTeam + (if i < extraPlayers then 1 else 0)])
      else targetTeamSizes)"
  by pat_completeness auto
termination
  by (relation "measure (\<lambda>(b, e, n, i, acc). n - i)") auto

declare targetTeamSizes_loop.simps [simp del]

definition generateTeams_sizes :: "nat \<Rightarrow> nat \<Rightarrow> nat list" where
  "generateTeams_sizes totalPlayers numTeams =
     targetTeamSizes_loop (totalPlayers div numTeams) (totalPlayers mod numTeams) numTeams 0 []"

section \<open>Teams and draft state (UIManager.js)\<close>

record formation =
  goalkeeper :: "player option"
  defenders :: "player list"
  midfielders :: "player list"
  forwards :: "player list"

text \<open>
  \<open>averageRating\<close> is the number \<open>0\<close> for an empty team and otherwise the string
  returned by \<open>toFixed(1)\<close>. \<open>Fixed1 n\<close> stands for that string: the decimal numeral
  with one digit after the point whose value is \<open>n / 10\<close>.
\<close>

datatype average = Number int | Fixed1 int

text \<open>
  A team object. The display name \<open>Team <id>\<close> is determined by \<open>team_id\<close> and is not
  stored. \<open>targetSize\<close> is \<open>targetTeamSizes[index]\<close>, which is \<open>undefined\<close>
  (\<open>None\<close>) when the array is shorter than the team count.
\<close>

record team =
  team_id :: nat
  players :: "player list"
  formation :: formation
  totalRating :: int
  averageRating :: average
  targetSize :: "nat option"

text \<open>
  The formation lines, which the source names by the strings \<open>goalkeeper\<close>,
  \<open>defender\<close>, \<open>midfielder\<close> and \<open>forward\<close>. An entry of the assignment pool pairs
  a player with the line it was drawn from.
\<close>

datatype line = Goalkeeper | Defender | Midfielder | Forward

record pool_item =
  item_player :: player
  priority :: line

record draft_state =
  teams :: "team list"
  assignedPlayers :: "nat set"
  currentTeam :: int
  direction :: int

datatype error = TypeError

subsection \<open>Randomness\<close>

text \<open>
  \<open>Math.random\<close> is an injected sequence of draws, read front to back; a run that
  reads past the end of the sequence sees the draw \<open>0\<close>. Each call site turns its draw
  into the value it needs: \<open>Math.floor(Math.random() * n)\<close> ranges over \<open>0..n-1\<close>
  (and is \<open>0\<close> for \<open>n = 0\<close>), \<open>Math.random() > 0.5\<close> is a coin.
\<close>

type_synonym rng = "nat list"

fun random_below :: "nat \<Rightarrow> rng \<Rightarrow> nat \<times> rng" where
  "random_below n [] = (0, [])"
| "random_below n (r # g) = ((if n = 0 then 0 else r mod n), g)"

fun random_direction :: "rng \<Rightarrow> int \<times> rng" where
  "random_direction [] = (- 1, [])"
| "random_direction (r # g) = ((if odd r then 1 else - 1), g)"

text \<open>
  \<open>shuffleArray\<close>: \<open>for (i = length - 1; i > 0; i--)\<close>, swapping \<open>array[i]\<close> with
  \<open>array[j]\<close> for a random \<open>j\<close> in \<open>0..i\<close>.
\<close>

fun shuffle_loop :: "nat \<Rightarrow> 'a list \<Rightarrow> rng \<Rightarrow> 'a list \<times> rng" where
  "shuffle_loop 0 array g = (array, g)"
| "shuffle_loop (Suc k) array g =
     (case random_below (Suc k + 1) g of
        (j, g') \<Rightarrow> shuffle_loop k (array[Suc k := array ! j, j := array ! Suc k]) g')"

definition shuffleArray :: "'a list \<Rightarrow> rng \<Rightarrow> 'a list \<times> rng" where
  "shuffleArray array g = shuffle_loop (length array - 1) array g"

subsection \<open>Position categories and the best position in a line\<close>

definition positionCategories_defenders :: "string list" where
  "positionCategories_defenders = [''CB'', ''LB'', ''RB'']"

definition positionCategories_midfielders :: "string list" where
  "positionCategories_midfielders = [''CDM'', ''CM'', ''CAM'', ''LM'', ''RM'']"

definition positionCategories_forwards :: "string list" where
  "positionCategories_forwards = [''LW'', ''RW'', ''ST'']"

fun linePositions :: "line \<Rightarrow> string list" where
  "linePositions Defender = [''CB'', ''LB'', ''RB'']"
| "linePositions Midfielder = [''CDM'', ''CM'', ''CAM'', ''LM'', ''RM'']"
| "linePositions Forward = [''LW'', ''RW'', ''ST'']"
| "linePositions Goalkeeper = []"

definition getBestPositionForFormationLine :: "player \<Rightarrow> line \<Rightarrow> string" where
  "getBestPositionForFormationLine p formationLine =
     (if formationLine = Goalkeeper then ''GK''
      else
        (let availablePositions =
               filter (\<lambda>pos. pos \<in> set (linePositions formationLine)) (positions p)
         in if preferredPosition p \<in> set availablePositions then preferredPosition p
            else (case availablePositions of
                    [] \<Rightarrow> hd (linePositions formationLine)
                  | pos # _ \<Rightarrow> pos)))"

text \<open>\<open>player.positions.some(pos => category.includes(pos))\<close>\<close>

definition can_play :: "string list \<Rightarrow> player \<Rightarrow> bool" where
  "can_play category p = list_ex (\<lambda>pos. pos \<in> set category) (positions p)"

subsection \<open>Team updates\<close>

text \<open>
  Player objects are shared by reference between \<open>team.players\<close> and the formation
  lines. The model keeps a copy in each place; every write to a player happens either
  before the player is pushed (\<open>assignedPosition\<close>) or is applied to every copy
  (the final \<open>delete\<close>).
\<close>

definition new_team :: "nat list \<Rightarrow> nat \<Rightarrow> team" where
  "new_team targetTeamSizes index =
     \<lparr>team_id = index + 1, players = [],
      formation = \<lparr>goalkeeper = None, defenders = [], midfielders = [], forwards = []\<rparr>,
      totalRating = 0, averageRating = Number 0,
      targetSize = (if index < length targetTeamSizes then Some (targetTeamSizes ! index)
                    else None)\<rparr>"

text \<open>Comparisons of \<open>team.players.length\<close> with \<open>team.targetSize\<close>; both are false
  against \<open>undefined\<close>.\<close>

definition reached_target :: "team \<Rightarrow> bool" where
  "reached_target t = (case targetSize t of None \<Rightarrow> False | Some s \<Rightarrow> s \<le> length (players t))"

definition below_target :: "team \<Rightarrow> bool" where
  "below_target t = (case targetSize t of None \<Rightarrow> False | Some s \<Rightarrow> length (players t) < s)"

definition set_goalkeeper :: "player \<Rightarrow> team \<Rightarrow> team" where
  "set_goalkeeper p t =
     t\<lparr>formation := (formation t)\<lparr>goalkeeper := Some p\<rparr>, players := players t @ [p]\<rparr>"

fun push_line :: "line \<Rightarrow> player \<Rightarrow> team \<Rightarrow> team" where
  "push_line Defender p t =
     t\<lparr>formation := (formation t)\<lparr>defenders := defenders (formation t) @ [p]\<rparr>,
       players := players t @ [p]\<rparr>"
| "push_line Midfielder p t =
     t\<lparr>formation := (formation t)\<lparr>midfielders := midfielders (formation t) @ [p]\<rparr>,
       players := players t @ [p]\<rparr>"
| "push_line Forward p t =
     t\<lparr>formation := (formation t)\<lparr>forwards := forwards (formation t) @ [p]\<rparr>,
       players := players t @ [p]\<rparr>"
| "push_line Goalkeeper p t = set_goalkeeper p t"

definition push_substitute :: "player \<Rightarrow> team \<Rightarrow> team" where
  "push_substitute p t = t\<lparr>players := players t @ [p]\<rparr>"

text \<open>\<open>teams[i]\<close> for a number \<open>i\<close>: \<open>undefined\<close> outside the array.\<close>

definition team_at :: "team list \<Rightarrow> int \<Rightarrow> team option" where
  "team_at ts i = (if 0 \<le> i \<and> i < int (length ts) then Some (ts ! nat i) else None)"

subsection \<open>Phase 1: goalkeepers\<close>

text \<open>
  The loop \<open>for (i = 0; i < teamOrder.length && i < shuffledGKs.length; i++)\<close> visits
  the pairs \<open>(teamOrder[i], shuffledGKs[i])\<close>, that is \<open>zip teamOrder shuffledGKs\<close>.
  Reading a field of \<open>teams[teamIndex]\<close> outside the array raises a TypeError.
\<close>

fun assign_goalkeepers :: "(nat \<times> player) list \<Rightarrow> draft_state \<Rightarrow> error + draft_state" where
  "assign_goalkeepers [] st = Inr st"
| "assign_goalkeepers ((teamIndex, p) # rest) st =
     (if teamIndex < length (teams st) then
        assign_goalkeepers rest
          (st\<lparr>teams := (teams st)[teamIndex :=
                  set_goalkeeper (p\<lparr>assignedPosition := Some ''GK''\<rparr>) (teams st ! teamIndex)],
              assignedPlayers := insert (player_id p) (assignedPlayers st)\<rparr>)
      else Inl TypeError)"

definition phase1 :: "nat \<Rightarrow> player list \<Rightarrow> draft_state \<Rightarrow> rng \<Rightarrow> error + (draft_state \<times> rng)" where
  "phase1 numTeams sortedPlayers st g =
     (let allGKCapablePlayers =
            filter (\<lambda>p. ''GK'' \<in> set (positions p) \<and> player_id p \<notin> assignedPlayers st)
              sortedPlayers;
          preferredGKs = filter (\<lambda>p. preferredPosition p = ''GK'') allGKCapablePlayers;
          alternativeGKs = filter (\<lambda>p. preferredPosition p \<noteq> ''GK'') allGKCapablePlayers
      in case shuffleArray preferredGKs g of (preferredGKs', g1) \<Rightarrow>
         case shuffleArray alternativeGKs g1 of (alternativeGKs', g2) \<Rightarrow>
         case shuffleArray [0..<numTeams] g2 of (teamOrder, g3) \<Rightarrow>
         case assign_goalkeepers (zip teamOrder (preferredGKs' @ alternativeGKs')) st of
           Inl e \<Rightarrow> Inl e
         | Inr st' \<Rightarrow> Inr (st', g3))"

subsection \<open>Phase 2: snake draft\<close>

definition assignmentPool :: "nat \<Rightarrow> player list \<Rightarrow> draft_state \<Rightarrow> rng \<Rightarrow> pool_item list \<times> rng" where
  "assignmentPool numTeams sortedPlayers st g =
     (let remainingPlayers = filter (\<lambda>p. player_id p \<notin> assignedPlayers st) sortedPlayers
      in case shuffleArray (filter (can_play positionCategories_defenders) remainingPlayers) g of
           (ds, g1) \<Rightarrow>
         case shuffleArray (filter (can_play positionCategories_midfielders) remainingPlayers) g1 of
           (ms, g2) \<Rightarrow>
         case shuffleArray (filter (can_play positionCategories_forwards) remainingPlayers) g2 of
           (fs, g3) \<Rightarrow>
         shuffleArray
           (map (\<lambda>p. \<lparr>item_player = p, priority = Defender\<rparr>) (take (numTeams * 4) ds)
            @ map (\<lambda>p. \<lparr>item_player = p, priority = Midfielder\<rparr>) (take (numTeams * 4) ms)
            @ map (\<lambda>p. \<lparr>item_player = p, priority = Forward\<rparr>) (take (numTeams * 3) fs))
           g3)"

text \<open>\<open>currentTeam += direction\<close> followed by the clamp-and-flip rule.\<close>

definition advance :: "nat \<Rightarrow> draft_state \<Rightarrow> draft_state" where
  "advance numTeams st =
     (let c = currentTeam st + direction st
      in if int numTeams \<le> c then st\<lparr>currentTeam := int numTeams - 1, direction := - 1\<rparr>
         else if c < 0 then st\<lparr>currentTeam := 0, direction := 1\<rparr>
         else st\<lparr>currentTeam := c\<rparr>)"

definition place :: "line \<Rightarrow> player \<Rightarrow> team \<Rightarrow> team" where
  "place l p t =
     push_line l (p\<lparr>assignedPosition := Some (getBestPositionForFormationLine p l)\<rparr>) t"

text \<open>The branches of the loop body that put the player into a line of the team.\<close>

definition try_assign :: "pool_item \<Rightarrow> team \<Rightarrow> team option" where
  "try_assign item t =
     (let p = item_player item; f = formation t
      in if priority item = Defender \<and> length (defenders f) < 4 then Some (place Defender p t)
         else if priority item = Midfielder \<and> length (midfielders f) < 4
           then Some (place Midfielder p t)
         else if priority item = Forward \<and> length (forwards f) < 3
           then Some (place Forward p t)
         else if length (defenders f) < 4 \<and> can_play positionCategories_defenders p
           then Some (place Defender p t)
         else if length (midfielders f) < 4 \<and> can_play positionCategories_midfielders p
           then Some (place Midfielder p t)
         else if length (forwards f) < 3 \<and> can_play positionCategories_forwards p
           then Some (place Forward p t)
         else None)"

text \<open>
  \<open>while (attempts < numTeams && !assigned)\<close>. The result carries \<open>assigned\<close>.
\<close>

function place_attempts ::
  "nat \<Rightarrow> pool_item \<Rightarrow> nat \<Rightarrow> draft_state \<Rightarrow> error + (bool \<times> draft_state)" where
  "place_attempts numTeams item attempts st =
     (if attempts < numTeams then
        (case team_at (teams st) (currentTeam st) of
           None \<Rightarrow> Inl TypeError
         | Some t \<Rightarrow>
             if reached_target t
             then place_attempts numTeams item (attempts + 1) (advance numTeams st)
             else (case try_assign item t of
                     Some t' \<Rightarrow>
                       Inr (True,
                            st\<lparr>teams := (teams st)[nat (currentTeam st) := t'],
                               assignedPlayers :=
                                 insert (player_id (item_player item)) (assignedPlayers st)\<rparr>)
                   | None \<Rightarrow>
                       place_attempts numTeams item (attempts + 1) (advance numTeams st)))
      else Inr (False, st))"
  by pat_completeness auto
termination
  by (relation "measure (\<lambda>(n, item, attempts, st). n - attempts)") auto

declare place_attempts.simps [simp del]

fun snake_draft :: "nat \<Rightarrow> pool_item list \<Rightarrow> draft_state \<Rightarrow> error + draft_state" where
  "snake_draft numTeams [] st = Inr st"
| "snake_draft numTeams (item # pool) st =
     (if player_id (item_player item) \<in> assignedPlayers st then snake_draft numTeams pool st
      else (case place_attempts numTeams item 0 st of
              Inl e \<Rightarrow> Inl e
            | Inr (assigned, st') \<Rightarrow>
                snake_draft numTeams pool (if assigned then advance numTeams st' else st')))"

subsection \<open>Phase 3: leftover sweep\<close>

definition slot_flexible :: "player \<Rightarrow> team \<Rightarrow> team option" where
  "slot_flexible p t =
     (if length (defenders (formation t)) < 4 then Some (push_line Defender p t)
      else if length (midfielders (formation t)) < 4 then Some (push_line Midfielder p t)
      else if length (forwards (formation t)) < 3 then Some (push_line Forward p t)
      else None)"

text \<open>
  Teams are objects held by reference; the model names them by their index in \<open>teams\<close>.
  \<open>teamsWithSpace\<close> is the filtered array after its (stable) sort by player count.
\<close>

definition teamsWithSpace :: "team list \<Rightarrow> nat list" where
  "teamsWithSpace ts =
     sort_key (\<lambda>i. length (players (ts ! i))) (filter (\<lambda>i. below_target (ts ! i)) [0..<length ts])"

fun first_slot :: "player \<Rightarrow> team list \<Rightarrow> nat list \<Rightarrow> (nat \<times> team) option" where
  "first_slot p ts [] = None"
| "first_slot p ts (i # is) =
     (case slot_flexible p (ts ! i) of
        Some t' \<Rightarrow> Some (i, t')
      | None \<Rightarrow> first_slot p ts is)"

text \<open>One iteration of the sweep; \<open>None\<close> is the \<open>break\<close>.\<close>

definition sweep_player :: "player \<Rightarrow> draft_state \<Rightarrow> draft_state option" where
  "sweep_player p st =
     (case teamsWithSpace (teams st) of
        [] \<Rightarrow> None
      | smallest # others \<Rightarrow>
          (case first_slot p (teams st) (smallest # others) of
             Some (i, t') \<Rightarrow>
               Some (st\<lparr>teams := (teams st)[i := t'],
                        assignedPlayers := insert (player_id p) (assignedPlayers st)\<rparr>)
           | None \<Rightarrow>
               Some (st\<lparr>teams := (teams st)[smallest :=
                               push_substitute p (teams st ! smallest)],
                        assignedPlayers := insert (player_id p) (assignedPlayers st)\<rparr>)))"

fun sweep :: "player list \<Rightarrow> draft_state \<Rightarrow> draft_state" where
  "sweep [] st = st"
| "sweep (p # ps) st =
     (case sweep_player p st of
        None \<Rightarrow> st
      | Some st' \<Rightarrow> sweep ps st')"

subsection \<open>Team statistics\<close>

definition strip :: "player \<Rightarrow> player" where
  "strip p = p\<lparr>tempRatingAdjustment := None\<rparr>"

text \<open>
  JavaScript numbers are IEEE 754 doubles. The overall ratings are integers (results of
  \<open>parseInt\<close>) and so are their sums, which the model keeps in \<open>int\<close>: the additions
  of the source are exact as long as the sums stay below \<open>2^53\<close> in magnitude. The
  quotient \<open>totalRating / players.length\<close> is where the source rounds.

  \<open>double_div a b\<close> is the value of the double \<open>a / b\<close> for an integer \<open>a\<close> and a
  positive integer \<open>b\<close>, both below \<open>2^53\<close> in magnitude: the exact quotient rounded to
  the nearest multiple of the unit in the last place of its binade (53 significant
  bits, exponent not below \<open>-1022\<close>), ties to the even multiple. \<open>binade a b\<close>, for
  positive \<open>a\<close> and \<open>b\<close>, is the exponent \<open>e\<close> with \<open>2^e \<le> a / b < 2^(e+1)\<close>. A quotient of such operands does not
  overflow.
\<close>

definition round_half_even :: "rat \<Rightarrow> int" where
  "round_half_even x =
     (let f = \<lfloor>x\<rfloor>; r = x - of_int f
      in if r < 1 / 2 then f else if 1 / 2 < r then f + 1 else if even f then f else f + 1)"

definition binade :: "int \<Rightarrow> int \<Rightarrow> int" where
  "binade a b =
     (let d = int (floorlog 2 (nat a)) - int (floorlog 2 (nat b))
      in if 2 powi d * of_int b \<le> (of_int a :: rat) then d else d - 1)"

definition double_div :: "int \<Rightarrow> nat \<Rightarrow> rat" where
  "double_div a b =
     (if a = 0 then 0
      else
        (let ulp = 2 powi (max (binade \<bar>a\<bar> (int b)) (- 1022) - 52);
             m = round_half_even (of_int \<bar>a\<bar> / of_int (int b) / ulp)
         in of_int (sgn a) * of_int m * ulp))"

text \<open>
  \<open>x.toFixed(1)\<close>, for a double \<open>x\<close> below \<open>10^21\<close> in magnitude, picks the integer
  \<open>n\<close> with \<open>n / 10\<close> nearest to the exact value of \<open>x\<close>, the larger one on a tie,
  after taking the sign off, and prints it with one digit after the point. \<open>Fixed1\<close>
  keeps the value of the numeral: a negative \<open>x\<close> that rounds to zero is printed as
  \<open>-0.0\<close> by the source and is \<open>Fixed1 0\<close> here.
\<close>

definition toFixed1 :: "rat \<Rightarrow> average" where
  "toFixed1 x = (if x < 0 then Fixed1 (- \<lfloor>- x * 10 + 1 / 2\<rfloor>) else Fixed1 \<lfloor>x * 10 + 1 / 2\<rfloor>)"

definition calculate_stats :: "team \<Rightarrow> team" where
  "calculate_stats t =
     (let ps = map strip (players t);
          f = formation t;
          total = fold (\<lambda>player sum. sum + getPlayerOverallRating player) ps 0
      in t\<lparr>players := ps,
           formation := \<lparr>goalkeeper = map_option strip (goalkeeper f),
                          defenders = map strip (defenders f),
                          midfielders = map strip (midfielders f),
                          forwards = map strip (forwards f)\<rparr>,
           totalRating := total,
           averageRating := (if 0 < length ps then toFixed1 (double_div total (length ps))
                             else Number 0)\<rparr>)"

subsection \<open>The generator\<close>

text \<open>
  The comparator \<open>ratingB - ratingA\<close> of the (stable) sort orders by descending
  effective rating.
\<close>

definition effective_rating :: "player \<Rightarrow> rat" where
  "effective_rating p =
     of_int (getPlayerOverallRating p)
       + (case tempRatingAdjustment p of None \<Rightarrow> 0 | Some a \<Rightarrow> a)"

definition sortPlayers :: "player list \<Rightarrow> player list" where
  "sortPlayers sourcePlayersArray = sort_key (\<lambda>p. - effective_rating p) sourcePlayersArray"

text \<open>
  The function up to the end of phase 2: the state the leftover sweep starts from, and
  what is left of the random draws.
\<close>

definition draft_phases ::
  "nat \<Rightarrow> nat list \<Rightarrow> player list \<Rightarrow> rng \<Rightarrow> error + (draft_state \<times> rng)" where
  "draft_phases numTeams targetTeamSizes sourcePlayersArray g =
     (let sortedPlayers = sortPlayers sourcePlayersArray
      in case random_below numTeams g of (c, g1) \<Rightarrow>
         case random_direction g1 of (d, g2) \<Rightarrow>
         case phase1 numTeams sortedPlayers
                \<lparr>teams = map (new_team targetTeamSizes) [0..<numTeams],
                 assignedPlayers = {}, currentTeam = int c, direction = d\<rparr> g2 of
           Inl e \<Rightarrow> Inl e
         | Inr (st1, g3) \<Rightarrow>
             (case assignmentPool numTeams sortedPlayers st1 g3 of (pool, g4) \<Rightarrow>
              case snake_draft numTeams pool st1 of
                Inl e \<Rightarrow> Inl e
              | Inr st2 \<Rightarrow> Inr (st2, g4)))"

text \<open>Phase 3 on top of it: \<open>finalRemainingPlayers\<close>, shuffled, is swept.\<close>

definition run_phases :: "nat \<Rightarrow> nat list \<Rightarrow> player list \<Rightarrow> rng \<Rightarrow> error + draft_state" where
  "run_phases numTeams targetTeamSizes sourcePlayersArray g =
     (case draft_phases numTeams targetTeamSizes sourcePlayersArray g of
        Inl e \<Rightarrow> Inl e
      | Inr (st2, g4) \<Rightarrow>
          (case shuffleArray
                  (filter (\<lambda>p. player_id p \<notin> assignedPlayers st2)
                     (sortPlayers sourcePlayersArray)) g4 of
             (finalRemainingPlayers, g5) \<Rightarrow> Inr (sweep finalRemainingPlayers st2)))"

definition createBalancedTeamsWithSizeControl ::
  "nat \<Rightarrow> nat list \<Rightarrow> player list \<Rightarrow> rng \<Rightarrow> error + team list" where
  "createBalancedTeamsWithSizeControl numTeams targetTeamSizes sourcePlayersArray g =
     (case run_phases numTeams targetTeamSizes sourcePlayersArray g of
        Inl e \<Rightarrow> Inl e
      | Inr st \<Rightarrow> Inr (map calculate_stats (teams st)))"

section \<open>Predicates used in the statements and proofs\<close>

text \<open>The ids of all players on the team sheets, team by team.\<close>

definition assigned_ids :: "team list \<Rightarrow> nat list" where
  "assigned_ids ts = concat (map (\<lambda>t. map player_id (players t)) ts)"

definition caps_ok :: "team \<Rightarrow> bool" where
  "caps_ok t \<longleftrightarrow>
     length (defenders (formation t)) \<le> 4 \<and> length (midfielders (formation t)) \<le> 4
     \<and> length (forwards (formation t)) \<le> 3"

text \<open>The cursor of the snake draft is a valid index into \<open>teams\<close>.\<close>

definition in_range :: "nat \<Rightarrow> draft_state \<Rightarrow> bool" where
  "in_range numTeams st \<longleftrightarrow>
     length (teams st) = numTeams \<and> 0 \<le> currentTeam st \<and> currentTeam st < int numTeams"

text \<open>
  \<open>team_grows t p t'\<close>: the team sheet \<open>t'\<close> is \<open>t\<close> with one more player, a copy of
  \<open>p\<close> up to its assigned position, appended to \<open>players\<close>; the goalkeeper slot and
  the target size are untouched and no line is pushed past its capacity.
\<close>

definition team_grows :: "team \<Rightarrow> player \<Rightarrow> team \<Rightarrow> bool" where
  "team_grows t p t' \<longleftrightarrow>
     (\<exists>pos. players t' = players t @ [p\<lparr>assignedPosition := pos\<rparr>])
     \<and> targetSize t' = targetSize t
     \<and> goalkeeper (formation t') = goalkeeper (formation t)
     \<and> (caps_ok t \<longrightarrow> caps_ok t')"

text \<open>
  The steps phases 2 and 3 take: the cursor moves, or a player is added to one team
  that has not reached its target size. With \<open>fresh\<close> set, the id of the added
  player is not yet in \<open>assignedPlayers\<close>.
\<close>

inductive draft_steps :: "bool \<Rightarrow> draft_state \<Rightarrow> draft_state \<Rightarrow> bool" where
  steps_refl: "draft_steps fresh s s"
| steps_cursor:
    "draft_steps fresh s s' \<Longrightarrow> draft_steps fresh s (s'\<lparr>currentTeam := c, direction := d\<rparr>)"
| steps_assign:
    "draft_steps fresh s s' \<Longrightarrow> i < length (teams s') \<Longrightarrow> \<not> reached_target (teams s' ! i)
     \<Longrightarrow> team_grows (teams s' ! i) p t'
     \<Longrightarrow> (fresh \<Longrightarrow> player_id p \<notin> assignedPlayers s')
     \<Longrightarrow> draft_steps fresh s
           (s'\<lparr>teams := (teams s')[i := t'],
               assignedPlayers := insert (player_id p) (assignedPlayers s')\<rparr>)"

text \<open>The invariants tying \<open>assignedPlayers\<close> to the team sheets.\<close>

definition marks_inv :: "draft_state \<Rightarrow> bool" where
  "marks_inv st \<longleftrightarrow> set (assigned_ids (teams st)) = assignedPlayers st"

definition ids_inv :: "draft_state \<Rightarrow> bool" where
  "ids_inv st \<longleftrightarrow> distinct (assigned_ids (teams st)) \<and> marks_inv st"

text \<open>
  The goalkeepers of the team sheets, team by team, and what holds of a team's
  goalkeeper: it plays \<open>GK\<close>, can play \<open>GK\<close>, and is on the team's player list.
\<close>

definition team_keepers :: "team list \<Rightarrow> player list" where
  "team_keepers ts =
     concat (map (\<lambda>t. case goalkeeper (formation t) of None \<Rightarrow> [] | Some k \<Rightarrow> [k]) ts)"

definition keeper_ok :: "team \<Rightarrow> bool" where
  "keeper_ok t =
     (case goalkeeper (formation t) of
        None \<Rightarrow> True
      | Some k \<Rightarrow> assignedPosition k = Some ''GK'' \<and> ''GK'' \<in> set (positions k)
                  \<and> k \<in> set (players t))"

text \<open>The object a goalkeeper-capable input player has become when it is returned as a
  team's goalkeeper.\<close>

definition as_keeper :: "player \<Rightarrow> player" where
  "as_keeper p = strip (p\<lparr>assignedPosition := Some ''GK''\<rparr>)"

text \<open>The state in which phase 1 starts.\<close>

definition init_state :: "nat \<Rightarrow> nat list \<Rightarrow> nat \<Rightarrow> int \<Rightarrow> draft_state" where
  "init_state n sizes c d =
     \<lparr>teams = map (new_team sizes) [0..<n], assignedPlayers = {}, currentTeam = int c,
      direction = d\<rparr>"

text \<open>The size cap of a team: \<open>team.players.length <= team.targetSize\<close>.\<close>

definition within_target :: "team \<Rightarrow> bool" where
  "within_target t = (case targetSize t of None \<Rightarrow> False | Some s \<Rightarrow> length (players t) \<le> s)"

text \<open>The size cap up to the one player phase 1 may give a team.\<close>

definition size_ok :: "team \<Rightarrow> bool" where
  "size_ok t = (case targetSize t of None \<Rightarrow> True | Some s \<Rightarrow> length (players t) \<le> max s 1)"


definition on_sheets :: "(player \<Rightarrow> bool) \<Rightarrow> team list \<Rightarrow> bool" where
  "on_sheets Q ts = list_all (\<lambda>t. list_all Q (players t)) ts"

definition rated :: "player \<Rightarrow> bool" where
  "rated p \<longleftrightarrow> 1 \<le> getPlayerOverallRating p \<and> getPlayerOverallRating p \<le> 99"




section \<open>Example inputs\<close>

text \<open>
  A player object as the application builds it: no assigned position, no rating
  adjustment, stat blocks with the given overall ratings.
\<close>

definition example_player ::
  "nat \<Rightarrow> string list \<Rightarrow> string \<Rightarrow> int option \<Rightarrow> int option \<Rightarrow> player" where
  "example_player i ps pref gk out =
     \<lparr>player_id = i, player_name = [], positions = ps, preferredPosition = pref,
      outfieldStats = map_option (\<lambda>v. \<lparr>overall = v\<rparr>) out,
      gkStats = map_option (\<lambda>v. \<lparr>overall = v\<rparr>) gk,
      assignedPosition = None, tempRatingAdjustment = None\<rparr>"

definition example_squad :: "player list" where
  "example_squad =
     [example_player 1 [''GK''] ''GK'' (Some 80) None,
      example_player 2 [''CB'', ''CM''] ''CB'' None (Some 70),
      example_player 3 [''ST''] ''ST'' None (Some 90),
      example_player 4 [''ST'', ''GK''] ''ST'' (Some 60) (Some 77),
      example_player 5 [''CM''] ''CM'' None (Some 81)]"

text \<open>Twenty midfielders, nineteen rated 75 and one rated 76: an average of 75.05.\<close>

definition example_twenty :: "player list" where
  "example_twenty =
     map (\<lambda>i. example_player i [''CM''] ''CM'' None (Some 75)) [1..<20]
     @ [example_player 20 [''CM''] ''CM'' None (Some 76)]"

definition example_draws :: rng where
  "example_draws = [3, 1, 4, 1, 5, 9, 2, 6, 5, 3, 5, 8, 9, 7, 9]"

section \<open>Size planner: proofs\<close>

lemma targetTeamSizes_loop_eq:
  "targetTeamSizes_loop b e n i acc =
     acc @ map (\<lambda>i. b + (if i < e then 1 else 0)) [i..<n]"
proof (induction b e n i acc rule: targetTeamSizes_loop.induct)
  case (1 b e n i acc)
  show ?case
  proof (cases "i < n")
    case True
    then show ?thesis
      using "1" by (subst targetTeamSizes_loop.simps) (simp add: upt_conv_Cons)
  next
    case False
    then show ?thesis
      by (subst targetTeamSizes_loop.simps) simp
  qed
qed

lemma sum_list_sizes:
  "sum_list (map (\<lambda>i. b + (if i < e then 1 else 0)) [0..<n]) = n * b + min e (n::nat)"
  by (induction n) (auto simp: min_def)

lemma length_calculateTeamSizes: "length (calculateTeamSizes t n) = n"
  by (simp add: calculateTeamSizes_def)

lemma nth_calculateTeamSizes:
  "i < n \<Longrightarrow> calculateTeamSizes t n ! i = t div n + (if i < t mod n then 1 else 0)"
  by (simp add: calculateTeamSizes_def)

lemma sum_list_calculateTeamSizes:
  assumes "0 < n"
  shows "sum_list (calculateTeamSizes t n) = t"
proof -
  have "t mod n < n" using assms by simp
  then have "min (t mod n) n = t mod n" by simp
  then have "sum_list (calculateTeamSizes t n) = n * (t div n) + t mod n"
    by (simp add: calculateTeamSizes_def sum_list_sizes)
  then show ?thesis by simp
qed

lemma set_calculateTeamSizes:
  "set (calculateTeamSizes t n) \<subseteq> {t div n, t div n + 1}"
  by (auto simp: calculateTeamSizes_def split: if_splits)

lemma spread_calculateTeamSizes:
  assumes "0 < n"
  shows "Max (set (calculateTeamSizes t n)) - Min (set (calculateTeamSizes t n)) \<le> 1"
proof -
  let ?S = "set (calculateTeamSizes t n)"
  have ne: "?S \<noteq> {}"
    using assms length_calculateTeamSizes [of t n] by (cases "calculateTeamSizes t n") auto
  have "Max ?S \<in> ?S" and "Min ?S \<in> ?S"
    using ne by simp_all
  then have "Max ?S \<le> t div n + 1" and "t div n \<le> Min ?S"
    using set_calculateTeamSizes [of t n] by auto
  then show ?thesis by simp
qed

text \<open>
  C3. For a team count of at least one, \<open>calculateTeamSizes\<close> returns exactly
  \<open>numTeams\<close> naturals; the teams with index below \<open>totalPlayers mod numTeams\<close> get
  \<open>totalPlayers div numTeams + 1\<close> and the others \<open>totalPlayers div numTeams\<close>; the
  sizes sum to \<open>totalPlayers\<close>; the largest and the smallest differ by at most one;
  9 players in 3 teams give 3, 3, 3 and 23 players in 3 teams give 8, 8, 7; the inline
  loop of \<open>generateTeams\<close> computes the same list.
\<close>

theorem calculateTeamSizes_fair:
  assumes "1 \<le> numTeams"
  shows "length (calculateTeamSizes totalPlayers numTeams) = numTeams
       \<and> (\<forall>i < numTeams. calculateTeamSizes totalPlayers numTeams ! i =
            (if i < totalPlayers mod numTeams then totalPlayers div numTeams + 1
             else totalPlayers div numTeams))
       \<and> sum_list (calculateTeamSizes totalPlayers numTeams) = totalPlayers
       \<and> Max (set (calculateTeamSizes totalPlayers numTeams))
           - Min (set (calculateTeamSizes totalPlayers numTeams)) \<le> 1
       \<and> calculateTeamSizes 9 3 = [3, 3, 3]
       \<and> calculateTeamSizes 23 3 = [8, 8, 7]
       \<and> generateTeams_sizes totalPlayers numTeams = calculateTeamSizes totalPlayers numTeams"
proof -
  have pos: "0 < numTeams" using assms by simp
  have a: "length (calculateTeamSizes totalPlayers numTeams) = numTeams"
    by (rule length_calculateTeamSizes)
  have b: "\<forall>i < numTeams. calculateTeamSizes totalPlayers numTeams ! i =
            (if i < totalPlayers mod numTeams then totalPlayers div numTeams + 1
             else totalPlayers div numTeams)"
    by (simp add: nth_calculateTeamSizes)
  have c: "sum_list (calculateTeamSizes totalPlayers numTeams) = totalPlayers"
    by (rule sum_list_calculateTeamSizes [OF pos])
  have d: "Max (set (calculateTeamSizes totalPlayers numTeams))
           - Min (set (calculateTeamSizes totalPlayers numTeams)) \<le> 1"
    by (rule spread_calculateTeamSizes [OF pos])
  have e: "calculateTeamSizes 9 3 = [3, 3, 3]"
    by (simp add: calculateTeamSizes_def upt_conv_Cons)
  have f: "calculateTeamSizes 23 3 = [8, 8, 7]"
    by (simp add: calculateTeamSizes_def upt_conv_Cons)
  have g: "generateTeams_sizes totalPlayers numTeams = calculateTeamSizes totalPlayers numTeams"
    by (simp add: generateTeams_sizes_def calculateTeamSizes_def targetTeamSizes_loop_eq)
  from a b c d e f g show ?thesis by blast
qed

theorem calculateTeamSizes_fair_witness:
  "(1::nat) \<le> 4
   \<and> calculateTeamSizes 10 4 = [3, 3, 2, 2]
   \<and> sum_list (calculateTeamSizes 10 4) = 10
   \<and> Max (set (calculateTeamSizes 10 4)) - Min (set (calculateTeamSizes 10 4)) \<le> 1
   \<and> generateTeams_sizes 10 4 = [3, 3, 2, 2]"
proof -
  have h: "(1::nat) \<le> 4" by simp
  have v: "calculateTeamSizes 10 4 = [3, 3, 2, 2]"
    by (simp add: calculateTeamSizes_def upt_conv_Cons)
  show ?thesis
    using calculateTeamSizes_fair [OF h, of 10] v by simp
qed

section \<open>Ratings: proofs\<close>

text \<open>
  C7. \<open>getPlayerOverallRating\<close> returns, with both stat blocks present, the goalkeeper
  overall when the preferred position is \<open>GK\<close> and the outfield overall otherwise; with
  one block present, that block's overall; with none, 75. A dual-role player preferring
  \<open>GK\<close> with goalkeeper overall 90 and outfield overall 78 is rated 90.
\<close>

theorem getPlayerOverallRating_resolution:
  "getPlayerOverallRating p =
     (case (gkStats p, outfieldStats p) of
        (Some gk, Some out) \<Rightarrow>
          (if preferredPosition p = ''GK'' then overall gk else overall out)
      | (Some gk, None) \<Rightarrow> overall gk
      | (None, Some out) \<Rightarrow> overall out
      | (None, None) \<Rightarrow> 75)
   \<and> getPlayerOverallRating
        \<lparr>player_id = i, player_name = nm, positions = ps, preferredPosition = ''GK'',
         outfieldStats = Some \<lparr>overall = 78\<rparr>, gkStats = Some \<lparr>overall = 90\<rparr>,
         assignedPosition = a, tempRatingAdjustment = j\<rparr> = 90"
  by (simp add: getPlayerOverallRating_def split: option.splits)

theorem getPlayerOverallRating_resolution_witness:
  "getPlayerOverallRating
     \<lparr>player_id = 7, player_name = ''Keeper-Back'', positions = [''GK'', ''CB''],
      preferredPosition = ''CB'', outfieldStats = Some \<lparr>overall = 78\<rparr>,
      gkStats = Some \<lparr>overall = 90\<rparr>, assignedPosition = None,
      tempRatingAdjustment = None\<rparr> = 78"
  using getPlayerOverallRating_resolution
    [of "\<lparr>player_id = 7, player_name = ''Keeper-Back'', positions = [''GK'', ''CB''],
          preferredPosition = ''CB'', outfieldStats = Some \<lparr>overall = 78\<rparr>,
          gkStats = Some \<lparr>overall = 90\<rparr>, assignedPosition = None,
          tempRatingAdjustment = None\<rparr>"]
  by simp

text \<open>
  C8. \<open>getPlayerRatingForPosition\<close> returns the goalkeeper overall when the role is
  \<open>GK\<close> and goalkeeper stats exist; otherwise the outfield overall whenever outfield
  stats exist, whatever the role; the penalised value \<open>max (overall - 20) 40\<close> only for
  a player with goalkeeper stats and no outfield stats in a role other than \<open>GK\<close>; and
  75 when neither block exists. The dual-role player of the example (90 in goal, 78
  outfield) placed as \<open>ST\<close> or queried as \<open>ATT\<close> is rated 78.
\<close>

theorem getPlayerRatingForPosition_resolution:
  "getPlayerRatingForPosition p role =
     (case (gkStats p, outfieldStats p) of
        (Some gk, Some out) \<Rightarrow> (if role = ''GK'' then overall gk else overall out)
      | (Some gk, None) \<Rightarrow> (if role = ''GK'' then overall gk else max (overall gk - 20) 40)
      | (None, Some out) \<Rightarrow> overall out
      | (None, None) \<Rightarrow> 75)
   \<and> getPlayerRatingForPosition
        \<lparr>player_id = i, player_name = nm, positions = ps, preferredPosition = ''GK'',
         outfieldStats = Some \<lparr>overall = 78\<rparr>, gkStats = Some \<lparr>overall = 90\<rparr>,
         assignedPosition = Some ''ST'', tempRatingAdjustment = j\<rparr> ''ST'' = 78
   \<and> getPlayerRatingForPosition
        \<lparr>player_id = i, player_name = nm, positions = ps, preferredPosition = ''GK'',
         outfieldStats = Some \<lparr>overall = 78\<rparr>, gkStats = Some \<lparr>overall = 90\<rparr>,
         assignedPosition = Some ''ST'', tempRatingAdjustment = j\<rparr> ''ATT'' = 78"
  by (simp add: getPlayerRatingForPosition_def split: option.splits)

theorem getPlayerRatingForPosition_resolution_witness:
  "getPlayerRatingForPosition
     \<lparr>player_id = 3, player_name = ''Keeper'', positions = [''GK''],
      preferredPosition = ''GK'', outfieldStats = None,
      gkStats = Some \<lparr>overall = 55\<rparr>, assignedPosition = None,
      tempRatingAdjustment = None\<rparr> ''DEF'' = 40"
  using getPlayerRatingForPosition_resolution
    [of "\<lparr>player_id = 3, player_name = ''Keeper'', positions = [''GK''],
          preferredPosition = ''GK'', outfieldStats = None,
          gkStats = Some \<lparr>overall = 55\<rparr>, assignedPosition = None,
          tempRatingAdjustment = None\<rparr>" "''DEF''"]
  by simp

section \<open>Shuffles are permutations; ids on the team sheets\<close>

lemma random_below_less: "0 < n \<Longrightarrow> fst (random_below n g) < n"
  by (cases g) auto

lemma mset_shuffle_loop:
  "k < length xs \<Longrightarrow> mset (fst (shuffle_loop k xs g)) = mset xs"
proof (induction k arbitrary: xs g)
  case 0
  then show ?case by simp
next
  case (Suc k)
  obtain j g' where r: "random_below (Suc k + 1) g = (j, g')" by (cases "random_below (Suc k + 1) g")
  have "j < Suc k + 1" using random_below_less [of "Suc k + 1" g] r by simp
  then have j: "j < length xs" using Suc.prems by simp
  let ?ys = "xs[Suc k := xs ! j, j := xs ! Suc k]"
  have m: "mset ?ys = mset xs"
    using mset_swap [of j xs "Suc k"] Suc.prems j by simp
  have "k < length ?ys" using Suc.prems by simp
  from Suc.IH [OF this] m r show ?case by simp
qed

lemma mset_shuffleArray: "mset (fst (shuffleArray xs g)) = mset xs"
proof (cases xs)
  case Nil
  then show ?thesis by (simp add: shuffleArray_def)
next
  case (Cons a list)
  then show ?thesis by (simp add: shuffleArray_def mset_shuffle_loop)
qed

lemma shuffleArray_perm:
  assumes "shuffleArray xs g = (ys, g')"
  shows "mset ys = mset xs"
  using mset_shuffleArray [of xs g] assms by simp

lemma shuffleArray_set: "shuffleArray xs g = (ys, g') \<Longrightarrow> set ys = set xs"
  by (metis shuffleArray_perm mset_eq_setD)

lemma shuffleArray_length: "shuffleArray xs g = (ys, g') \<Longrightarrow> length ys = length xs"
  by (metis shuffleArray_perm mset_eq_length)

lemma shuffleArray_distinct: "shuffleArray xs g = (ys, g') \<Longrightarrow> distinct ys = distinct xs"
  by (metis shuffleArray_perm mset_eq_imp_distinct_iff)

lemma shuffleArray_map_distinct:
  "shuffleArray xs g = (ys, g') \<Longrightarrow> distinct (map f ys) = distinct (map f xs)"
  by (metis shuffleArray_perm mset_eq_imp_distinct_iff mset_map)

lemma mset_assigned_ids_update:
  "i < length ts \<Longrightarrow> players t' = players (ts ! i) @ [p] \<Longrightarrow>
   mset (assigned_ids (ts[i := t'])) = add_mset (player_id p) (mset (assigned_ids ts))"
proof (induction ts arbitrary: i)
  case Nil
  then show ?case by simp
next
  case (Cons t ts)
  show ?case
  proof (cases i)
    case 0
    then show ?thesis using Cons.prems by (simp add: assigned_ids_def)
  next
    case (Suc j)
    then have "mset (assigned_ids (ts[j := t'])) = add_mset (player_id p) (mset (assigned_ids ts))"
      using Cons by simp
    then show ?thesis using Suc by (simp add: assigned_ids_def)
  qed
qed

lemma marks_inv_update:
  assumes "marks_inv s" "i < length (teams s)" "players t' = players (teams s ! i) @ [p]"
  shows "marks_inv (s\<lparr>teams := (teams s)[i := t'],
                     assignedPlayers := insert (player_id p) (assignedPlayers s)\<rparr>)"
proof -
  have "mset (assigned_ids ((teams s)[i := t'])) = mset (player_id p # assigned_ids (teams s))"
    using mset_assigned_ids_update [OF assms(2,3)] by simp
  from mset_eq_setD [OF this]
  have "set (assigned_ids ((teams s)[i := t'])) = insert (player_id p) (set (assigned_ids (teams s)))"
    by simp
  then show ?thesis using assms(1) by (simp add: marks_inv_def)
qed

lemma ids_inv_update:
  assumes "ids_inv s" "i < length (teams s)" "players t' = players (teams s ! i) @ [p]"
    "player_id p \<notin> assignedPlayers s"
  shows "ids_inv (s\<lparr>teams := (teams s)[i := t'],
                   assignedPlayers := insert (player_id p) (assignedPlayers s)\<rparr>)"
proof -
  let ?old = "assigned_ids (teams s)" and ?new = "assigned_ids ((teams s)[i := t'])"
  have m: "mset ?new = mset (player_id p # ?old)"
    using mset_assigned_ids_update [OF assms(2,3)] by simp
  have d: "distinct (player_id p # ?old)"
    using assms(1,4) by (simp add: ids_inv_def marks_inv_def)
  have "distinct ?new" using m d mset_eq_imp_distinct_iff by blast
  moreover have "marks_inv s" using assms(1) by (simp add: ids_inv_def)
  ultimately show ?thesis
    using marks_inv_update [OF _ assms(2,3)] by (simp add: ids_inv_def)
qed

lemma team_grows_players:
  "team_grows t p t' \<Longrightarrow> \<exists>p'. players t' = players t @ [p'] \<and> player_id p' = player_id p"
  unfolding team_grows_def by auto


lemma draft_steps_ids_inv: "draft_steps True s s' \<Longrightarrow> ids_inv s \<Longrightarrow> ids_inv s'"
proof (induction "True" s s' rule: draft_steps.induct)
  case (steps_refl s)
  then show ?case .
next
  case (steps_cursor s s' c d)
  then show ?case by (simp add: ids_inv_def marks_inv_def)
next
  case (steps_assign s s' i p t')
  from team_grows_players [OF steps_assign.hyps(5)] obtain p' where
    pl: "players t' = players (teams s' ! i) @ [p']" and id: "player_id p' = player_id p"
    by blast
  have "ids_inv s'" using steps_assign by simp
  from ids_inv_update [OF this steps_assign.hyps(3) pl] id steps_assign.hyps(6)
  show ?case by simp
qed

section \<open>Phase 2 takes draft steps and never fails\<close>

lemma advance_cursor: "\<exists>c d. advance n s = s\<lparr>currentTeam := c, direction := d\<rparr>"
proof -
  have "s\<lparr>currentTeam := currentTeam s + direction s\<rparr>
        = s\<lparr>currentTeam := currentTeam s + direction s, direction := direction s\<rparr>"
    by simp
  then show ?thesis
    unfolding advance_def Let_def by (metis (full_types))
qed

lemma draft_steps_advance: "draft_steps fresh s0 s \<Longrightarrow> draft_steps fresh s0 (advance n s)"
  using advance_cursor [of n s] steps_cursor by metis

lemma advance_fields [simp]:
  "teams (advance n s) = teams s" "assignedPlayers (advance n s) = assignedPlayers s"
  by (simp_all add: advance_def Let_def)

lemma advance_in_range: "in_range n s \<Longrightarrow> in_range n (advance n s)"
  by (auto simp: in_range_def advance_def Let_def)

lemma team_growsI:
  assumes "players t' = players t @ [p']" "p' = p\<lparr>assignedPosition := assignedPosition p'\<rparr>"
    "targetSize t' = targetSize t" "goalkeeper (formation t') = goalkeeper (formation t)"
    "caps_ok t \<Longrightarrow> caps_ok t'"
  shows "team_grows t p t'"
  unfolding team_grows_def using assms by metis

lemma team_grows_push_line:
  assumes "p' = p\<lparr>assignedPosition := assignedPosition p'\<rparr>"
    and "l \<noteq> Goalkeeper"
    and "l = Defender \<Longrightarrow> length (defenders (formation t)) < 4"
    and "l = Midfielder \<Longrightarrow> length (midfielders (formation t)) < 4"
    and "l = Forward \<Longrightarrow> length (forwards (formation t)) < 3"
  shows "team_grows t p (push_line l p' t)"
proof (rule team_growsI [OF _ assms(1)])
  show "players (push_line l p' t) = players t @ [p']"
    using assms(2) by (cases l) simp_all
  show "targetSize (push_line l p' t) = targetSize t"
    using assms(2) by (cases l) simp_all
  show "goalkeeper (formation (push_line l p' t)) = goalkeeper (formation t)"
    using assms(2) by (cases l) simp_all
  show "caps_ok (push_line l p' t)" if "caps_ok t"
    using assms(2-5) that by (cases l) (simp_all add: caps_ok_def)
qed

lemma team_grows_place:
  assumes "l \<noteq> Goalkeeper"
    and "l = Defender \<Longrightarrow> length (defenders (formation t)) < 4"
    and "l = Midfielder \<Longrightarrow> length (midfielders (formation t)) < 4"
    and "l = Forward \<Longrightarrow> length (forwards (formation t)) < 3"
  shows "team_grows t p (place l p t)"
  unfolding place_def by (rule team_grows_push_line [OF _ assms]) simp

lemma team_grows_try_assign:
  "try_assign item t = Some t' \<Longrightarrow> team_grows t (item_player item) t'"
  unfolding try_assign_def Let_def
  by (auto split: if_splits intro!: team_grows_place)

lemma team_grows_slot_flexible:
  "slot_flexible p t = Some t' \<Longrightarrow> team_grows t p t'"
  unfolding slot_flexible_def
  by (auto split: if_splits simp del: push_line.simps intro!: team_grows_push_line)

lemma team_grows_push_substitute: "team_grows t p (push_substitute p t)"
  by (rule team_growsI [where p' = p]) (simp_all add: push_substitute_def caps_ok_def)

lemma team_at_Some: "team_at ts c = Some t \<Longrightarrow> nat c < length ts \<and> t = ts ! nat c"
  by (auto simp: team_at_def split: if_splits)

lemma place_attempts_steps:
  "place_attempts n item a s = Inr (b, s') \<Longrightarrow> draft_steps fresh s0 s \<Longrightarrow>
   player_id (item_player item) \<notin> assignedPlayers s \<Longrightarrow> draft_steps fresh s0 s'"
proof (induction n item a s rule: place_attempts.induct)
  case (1 n item a s)
  show ?case
  proof (cases "a < n")
    case False
    then show ?thesis using "1.prems" by (simp add: place_attempts.simps)
  next
    case True
    show ?thesis
    proof (cases "team_at (teams s) (currentTeam s)")
      case None
      then show ?thesis using True "1.prems" by (simp add: place_attempts.simps)
    next
      case (Some t)
      note lookup = team_at_Some [OF Some]
      show ?thesis
      proof (cases "reached_target t")
        case full: True
        have "place_attempts n item (a + 1) (advance n s) = Inr (b, s')"
          using "1.prems"(1) True Some full by (simp add: place_attempts.simps)
        from "1.IH"(1) [OF True Some full this draft_steps_advance [OF "1.prems"(2)]]
        show ?thesis using "1.prems"(3) by simp
      next
        case room: False
        show ?thesis
        proof (cases "try_assign item t")
          case None
          have "place_attempts n item (a + 1) (advance n s) = Inr (b, s')"
            using "1.prems"(1) True Some room None by (simp add: place_attempts.simps)
          from "1.IH"(2) [OF True Some room None this draft_steps_advance [OF "1.prems"(2)]]
          show ?thesis using "1.prems"(3) by simp
        next
          case placed: (Some t')
          have s': "s' = s\<lparr>teams := (teams s)[nat (currentTeam s) := t'],
                          assignedPlayers := insert (player_id (item_player item)) (assignedPlayers s)\<rparr>"
            using "1.prems"(1) True Some room placed by (simp add: place_attempts.simps)
          have g: "team_grows (teams s ! nat (currentTeam s)) (item_player item) t'"
            using team_grows_try_assign [OF placed] lookup by simp
          have r: "\<not> reached_target (teams s ! nat (currentTeam s))"
            using room lookup by simp
          show ?thesis
            unfolding s'
            by (rule steps_assign [OF "1.prems"(2) _ r g "1.prems"(3)]) (use lookup in simp)
        qed
      qed
    qed
  qed
qed

lemma place_attempts_assigned:
  "place_attempts n item a s = Inr (False, s') \<Longrightarrow> assignedPlayers s' = assignedPlayers s"
proof (induction n item a s rule: place_attempts.induct)
  case (1 n item a s)
  show ?case
    using "1.prems" "1.IH"
    by (subst (asm) place_attempts.simps) (auto split: if_splits option.splits)
qed

lemma in_range_team_at: "in_range n s \<Longrightarrow> \<exists>t. team_at (teams s) (currentTeam s) = Some t"
  by (simp add: in_range_def team_at_def)

lemma place_attempts_ok:
  "in_range n s \<Longrightarrow> \<exists>b s'. place_attempts n item a s = Inr (b, s') \<and> in_range n s'"
proof (induction n item a s rule: place_attempts.induct)
  case (1 n item a s)
  show ?case
  proof (cases "a < n")
    case False
    then show ?thesis using "1.prems" by (subst place_attempts.simps) auto
  next
    case True
    from in_range_team_at [OF "1.prems"] obtain t where
      Some: "team_at (teams s) (currentTeam s) = Some t" by blast
    show ?thesis
    proof (cases "reached_target t")
      case full: True
      from "1.IH"(1) [OF True Some full advance_in_range [OF "1.prems"]]
      show ?thesis using True Some full by (simp add: place_attempts.simps)
    next
      case room: False
      show ?thesis
      proof (cases "try_assign item t")
        case None
        from "1.IH"(2) [OF True Some room None advance_in_range [OF "1.prems"]]
        show ?thesis using True Some room None by (simp add: place_attempts.simps)
      next
        case placed: (Some t')
        then show ?thesis
          using True Some room "1.prems"
          by (subst place_attempts.simps) (auto simp: in_range_def)
      qed
    qed
  qed
qed

lemma snake_draft_steps:
  "snake_draft n pool s = Inr s' \<Longrightarrow> draft_steps fresh s0 s \<Longrightarrow> draft_steps fresh s0 s'"
proof (induction pool arbitrary: s)
  case Nil
  then show ?case by simp
next
  case (Cons item pool)
  show ?case
  proof (cases "player_id (item_player item) \<in> assignedPlayers s")
    case True
    then show ?thesis using Cons by simp
  next
    case False
    from Cons.prems(1) False obtain b s1 where
      pa: "place_attempts n item 0 s = Inr (b, s1)"
      and rest: "snake_draft n pool (if b then advance n s1 else s1) = Inr s'"
      by (auto split: sum.splits)
    have "draft_steps fresh s0 s1" by (rule place_attempts_steps [OF pa Cons.prems(2) False])
    then have "draft_steps fresh s0 (if b then advance n s1 else s1)"
      by (simp add: draft_steps_advance)
    from Cons.IH [OF rest this] show ?thesis .
  qed
qed

lemma snake_draft_ok:
  "in_range n s \<Longrightarrow> \<exists>s'. snake_draft n pool s = Inr s' \<and> in_range n s'"
proof (induction pool arbitrary: s)
  case Nil
  then show ?case by simp
next
  case (Cons item pool)
  show ?case
  proof (cases "player_id (item_player item) \<in> assignedPlayers s")
    case True
    then show ?thesis using Cons by simp
  next
    case False
    from place_attempts_ok [OF Cons.prems, of item 0] obtain b s1 where
      pa: "place_attempts n item 0 s = Inr (b, s1)" and r: "in_range n s1" by blast
    have "in_range n (if b then advance n s1 else s1)"
      using r by (simp add: advance_in_range)
    from Cons.IH [OF this] show ?thesis using False pa by simp
  qed
qed

section \<open>Invariants of draft steps; the leftover sweep\<close>

lemma draft_steps_map:
  assumes "draft_steps fresh s s'" and "\<And>t p t'. team_grows t p t' \<Longrightarrow> f t' = f t"
  shows "map f (teams s') = map f (teams s)"
  using assms(1)
proof (induction rule: draft_steps.induct)
  case (steps_refl fresh s)
  show ?case by simp
next
  case (steps_cursor fresh s s' c d)
  then show ?case by simp
next
  case (steps_assign fresh s s' i p t')
  have "f t' = map f (teams s') ! i"
    using assms(2) [OF steps_assign.hyps(4)] steps_assign.hyps(2) by simp
  then have "map f ((teams s')[i := t']) = map f (teams s')"
    by (simp add: map_update)
  then show ?case using steps_assign.IH by simp
qed

lemma draft_steps_length: "draft_steps fresh s s' \<Longrightarrow> length (teams s') = length (teams s)"
  by (induction rule: draft_steps.induct) simp_all

lemma draft_steps_targetSize:
  "draft_steps fresh s s' \<Longrightarrow> map targetSize (teams s') = map targetSize (teams s)"
  by (rule draft_steps_map) (simp_all add: team_grows_def)

lemma draft_steps_goalkeeper:
  "draft_steps fresh s s' \<Longrightarrow>
   map (\<lambda>t. goalkeeper (formation t)) (teams s') = map (\<lambda>t. goalkeeper (formation t)) (teams s)"
  by (rule draft_steps_map) (simp_all add: team_grows_def)

lemma draft_steps_list_all:
  assumes "draft_steps fresh s s'" and "list_all Q (teams s)"
    and "\<And>t p t'. Q t \<Longrightarrow> team_grows t p t' \<Longrightarrow> Q t'"
  shows "list_all Q (teams s')"
  using assms(1,2)
proof (induction rule: draft_steps.induct)
  case (steps_refl fresh s)
  then show ?case .
next
  case (steps_cursor fresh s s' c d)
  then show ?case by simp
next
  case (steps_assign fresh s s' i p t')
  have all: "list_all Q (teams s')" using steps_assign by simp
  then have "Q (teams s' ! i)"
    using steps_assign.hyps(2) by (simp add: list_all_length)
  then have "Q t'" using assms(3) steps_assign.hyps(4) by blast
  then have "list_all Q ((teams s')[i := t'])"
    using all by (auto simp: list_all_iff dest: subsetD [OF set_update_subset_insert])
  then show ?case by simp
qed

lemma draft_steps_caps:
  "draft_steps fresh s s' \<Longrightarrow> list_all caps_ok (teams s) \<Longrightarrow> list_all caps_ok (teams s')"
  by (erule draft_steps_list_all) (auto simp: team_grows_def)

lemma below_not_reached: "below_target t \<Longrightarrow> \<not> reached_target t"
  by (auto simp: below_target_def reached_target_def split: option.splits)

lemma set_teamsWithSpace:
  "set (teamsWithSpace ts) = {i. i < length ts \<and> below_target (ts ! i)}"
  by (auto simp: teamsWithSpace_def)



lemma first_slot_Some:
  "first_slot p ts is = Some (i, t') \<Longrightarrow> i \<in> set is \<and> slot_flexible p (ts ! i) = Some t'"
  by (induction "is") (auto split: option.splits)



lemma sweep_player_Some:
  assumes "sweep_player p s = Some s'"
  shows "\<exists>i t'. i < length (teams s) \<and> below_target (teams s ! i)
           \<and> team_grows (teams s ! i) p t'
           \<and> s' = s\<lparr>teams := (teams s)[i := t'],
                     assignedPlayers := insert (player_id p) (assignedPlayers s)\<rparr>"
proof -
  from assms obtain i "is" where tw: "teamsWithSpace (teams s) = i # is"
    by (auto simp: sweep_player_def split: list.splits)
  have mem: "\<And>j. j \<in> set (i # is) \<Longrightarrow> j < length (teams s) \<and> below_target (teams s ! j)"
    using set_teamsWithSpace [of "teams s"] tw by auto
  show ?thesis
  proof (cases "first_slot p (teams s) (i # is)")
    case None
    then have "s' = s\<lparr>teams := (teams s)[i := push_substitute p (teams s ! i)],
                       assignedPlayers := insert (player_id p) (assignedPlayers s)\<rparr>"
      using assms tw by (simp add: sweep_player_def)
    then show ?thesis
      using mem [of i] team_grows_push_substitute by fastforce
  next
    case (Some a)
    obtain j t' where a: "a = (j, t')" by (cases a)
    from first_slot_Some [OF Some [unfolded a]]
    have j: "j \<in> set (i # is)" and sl: "slot_flexible p (teams s ! j) = Some t'" by simp_all
    have "s' = s\<lparr>teams := (teams s)[j := t'],
                  assignedPlayers := insert (player_id p) (assignedPlayers s)\<rparr>"
      using assms tw Some a by (simp add: sweep_player_def)
    then show ?thesis
      using mem [OF j] team_grows_slot_flexible [OF sl] by blast
  qed
qed

lemma sweep_player_steps:
  assumes "sweep_player p s = Some s'" and "draft_steps fresh s0 s"
    and "fresh \<Longrightarrow> player_id p \<notin> assignedPlayers s"
  shows "draft_steps fresh s0 s'"
proof -
  from sweep_player_Some [OF assms(1)] obtain i t' where
    i: "i < length (teams s)" and b: "below_target (teams s ! i)"
    and g: "team_grows (teams s ! i) p t'"
    and s': "s' = s\<lparr>teams := (teams s)[i := t'],
                     assignedPlayers := insert (player_id p) (assignedPlayers s)\<rparr>"
    by blast
  show ?thesis
    unfolding s'
    by (rule steps_assign [OF assms(2) i below_not_reached [OF b] g assms(3)])
qed

lemma sweep_player_assigned:
  "sweep_player p s = Some s' \<Longrightarrow> assignedPlayers s' = insert (player_id p) (assignedPlayers s)"
  using sweep_player_Some by fastforce

lemma sweep_steps:
  assumes "draft_steps fresh s0 s"
    and "fresh \<Longrightarrow> distinct (map player_id ps) \<and> player_id ` set ps \<inter> assignedPlayers s = {}"
  shows "draft_steps fresh s0 (sweep ps s)"
  using assms
proof (induction ps arbitrary: s)
  case Nil
  then show ?case by simp
next
  case (Cons p ps)
  show ?case
  proof (cases "sweep_player p s")
    case None
    then show ?thesis using Cons.prems(1) by simp
  next
    case (Some s1)
    have f: "fresh \<Longrightarrow> player_id p \<notin> assignedPlayers s" using Cons.prems(2) by auto
    have st: "draft_steps fresh s0 s1"
      by (rule sweep_player_steps [OF Some Cons.prems(1) f])
    have "fresh \<Longrightarrow> distinct (map player_id ps) \<and> player_id ` set ps \<inter> assignedPlayers s1 = {}"
      using Cons.prems(2) sweep_player_assigned [OF Some] by auto
    from Cons.IH [OF st this] show ?thesis using Some by simp
  qed
qed



section \<open>Phase 1\<close>

lemma assign_goalkeepers_ok:
  "\<forall>i \<in> fst ` set pairs. i < length (teams s) \<Longrightarrow>
   \<exists>s'. assign_goalkeepers pairs s = Inr s' \<and> length (teams s') = length (teams s)
        \<and> currentTeam s' = currentTeam s \<and> direction s' = direction s
        \<and> map targetSize (teams s') = map targetSize (teams s)"
proof (induction pairs arbitrary: s)
  case Nil
  then show ?case by simp
next
  case (Cons a pairs)
  obtain i p where a: "a = (i, p)" by (cases a)
  let ?s1 = "s\<lparr>teams := (teams s)[i :=
                  set_goalkeeper (p\<lparr>assignedPosition := Some ''GK''\<rparr>) (teams s ! i)],
              assignedPlayers := insert (player_id p) (assignedPlayers s)\<rparr>"
  have i: "i < length (teams s)" using Cons.prems a by simp
  have "\<forall>j \<in> fst ` set pairs. j < length (teams ?s1)" using Cons.prems by simp
  from Cons.IH [OF this] obtain s' where
    r: "assign_goalkeepers pairs ?s1 = Inr s'" and l: "length (teams s') = length (teams ?s1)"
    and c: "currentTeam s' = currentTeam ?s1" "direction s' = direction ?s1"
    and t: "map targetSize (teams s') = map targetSize (teams ?s1)"
    by blast
  have "map targetSize (teams ?s1) = map targetSize (teams s)"
    using i by (simp add: map_update set_goalkeeper_def list_update_same_conv)
  then show ?case using a i r l c t by simp
qed


lemma assign_goalkeepers_assigned:
  "assign_goalkeepers pairs s = Inr s' \<Longrightarrow>
   assignedPlayers s' = assignedPlayers s \<union> player_id ` snd ` set pairs"
proof (induction pairs arbitrary: s)
  case Nil
  then show ?case by simp
next
  case (Cons a pairs)
  obtain i p where a: "a = (i, p)" by (cases a)
  from Cons.prems a Cons.IH show ?case by (auto split: if_splits)
qed

lemma assign_goalkeepers_ids_inv:
  "assign_goalkeepers pairs s = Inr s' \<Longrightarrow> ids_inv s \<Longrightarrow> distinct (map (player_id \<circ> snd) pairs)
   \<Longrightarrow> player_id ` snd ` set pairs \<inter> assignedPlayers s = {} \<Longrightarrow> ids_inv s'"
proof (induction pairs arbitrary: s)
  case Nil
  then show ?case by simp
next
  case (Cons a pairs)
  obtain i p where a: "a = (i, p)" by (cases a)
  let ?p = "p\<lparr>assignedPosition := Some ''GK''\<rparr>"
  let ?s1 = "s\<lparr>teams := (teams s)[i := set_goalkeeper ?p (teams s ! i)],
              assignedPlayers := insert (player_id ?p) (assignedPlayers s)\<rparr>"
  from Cons.prems(1) a have i: "i < length (teams s)" and r: "assign_goalkeepers pairs ?s1 = Inr s'"
    by (auto split: if_splits)
  have fresh: "player_id ?p \<notin> assignedPlayers s" using Cons.prems(4) a by auto
  have inv: "ids_inv ?s1"
    by (rule ids_inv_update [OF Cons.prems(2) i _ fresh]) (simp add: set_goalkeeper_def)
  have d: "distinct (map (player_id \<circ> snd) pairs)" using Cons.prems(3) by (simp add: comp_def)
  have "player_id ` snd ` set pairs \<inter> assignedPlayers ?s1 = {}"
    using Cons.prems(3,4) a by auto
  from Cons.IH [OF r inv d this] show ?case .
qed

lemma assign_goalkeepers_caps:
  "assign_goalkeepers pairs s = Inr s' \<Longrightarrow> list_all caps_ok (teams s) \<Longrightarrow> list_all caps_ok (teams s')"
proof (induction pairs arbitrary: s)
  case Nil
  then show ?case by simp
next
  case (Cons a pairs)
  obtain i p where a: "a = (i, p)" by (cases a)
  let ?p = "p\<lparr>assignedPosition := Some ''GK''\<rparr>"
  let ?s1 = "s\<lparr>teams := (teams s)[i := set_goalkeeper ?p (teams s ! i)],
              assignedPlayers := insert (player_id p) (assignedPlayers s)\<rparr>"
  from Cons.prems(1) a have i: "i < length (teams s)" and r: "assign_goalkeepers pairs ?s1 = Inr s'"
    by (auto split: if_splits)
  have "caps_ok (teams s ! i)" using Cons.prems(2) i by (simp add: list_all_length)
  then have "caps_ok (set_goalkeeper ?p (teams s ! i))"
    by (simp add: caps_ok_def set_goalkeeper_def)
  then have "list_all caps_ok (teams ?s1)"
    using Cons.prems(2) by (auto simp: list_all_iff dest: subsetD [OF set_update_subset_insert])
  from Cons.IH [OF r this] show ?case .
qed

lemma keeper_ok_update:
  assumes "list_all keeper_ok ts" "keeper_ok t'"
  shows "list_all keeper_ok (ts[i := t'])"
  using assms by (auto simp: list_all_iff dest: subsetD [OF set_update_subset_insert])

lemma assign_goalkeepers_keeper_ok:
  "assign_goalkeepers pairs s = Inr s' \<Longrightarrow> list_all keeper_ok (teams s)
   \<Longrightarrow> \<forall>p \<in> snd ` set pairs. ''GK'' \<in> set (positions p) \<Longrightarrow> list_all keeper_ok (teams s')"
proof (induction pairs arbitrary: s)
  case Nil
  then show ?case by simp
next
  case (Cons a pairs)
  obtain i p where a: "a = (i, p)" by (cases a)
  let ?p = "p\<lparr>assignedPosition := Some ''GK''\<rparr>"
  let ?s1 = "s\<lparr>teams := (teams s)[i := set_goalkeeper ?p (teams s ! i)],
              assignedPlayers := insert (player_id p) (assignedPlayers s)\<rparr>"
  from Cons.prems(1) a have i: "i < length (teams s)" and r: "assign_goalkeepers pairs ?s1 = Inr s'"
    by (auto split: if_splits)
  have "''GK'' \<in> set (positions p)" using Cons.prems(3) a by simp
  then have "keeper_ok (set_goalkeeper ?p (teams s ! i))"
    by (simp add: keeper_ok_def set_goalkeeper_def)
  then have k: "list_all keeper_ok (teams ?s1)"
    using keeper_ok_update [OF Cons.prems(2)] by simp
  have "\<forall>p \<in> snd ` set pairs. ''GK'' \<in> set (positions p)" using Cons.prems(3) by simp
  from Cons.IH [OF r k this] show ?case .
qed

lemma mset_team_keepers_update:
  "i < length ts \<Longrightarrow> goalkeeper (formation (ts ! i)) = None \<Longrightarrow> goalkeeper (formation t') = Some k
   \<Longrightarrow> mset (team_keepers (ts[i := t'])) = add_mset k (mset (team_keepers ts))"
proof (induction ts arbitrary: i)
  case Nil
  then show ?case by simp
next
  case (Cons t ts)
  show ?case
  proof (cases i)
    case 0
    then show ?thesis using Cons.prems by (simp add: team_keepers_def)
  next
    case (Suc j)
    then have "mset (team_keepers (ts[j := t'])) = add_mset k (mset (team_keepers ts))"
      using Cons by simp
    then show ?thesis using Suc by (simp add: team_keepers_def)
  qed
qed


lemma assign_goalkeepers_keepers:
  "assign_goalkeepers pairs s = Inr s' \<Longrightarrow> distinct (map fst pairs)
   \<Longrightarrow> \<forall>i \<in> fst ` set pairs. goalkeeper (formation (teams s ! i)) = None
   \<Longrightarrow> mset (team_keepers (teams s'))
       = mset (team_keepers (teams s))
         + mset (map (\<lambda>(i, p). p\<lparr>assignedPosition := Some ''GK''\<rparr>) pairs)"
proof (induction pairs arbitrary: s)
  case Nil
  then show ?case by simp
next
  case (Cons a pairs)
  obtain i p where a: "a = (i, p)" by (cases a)
  let ?p = "p\<lparr>assignedPosition := Some ''GK''\<rparr>"
  let ?s1 = "s\<lparr>teams := (teams s)[i := set_goalkeeper ?p (teams s ! i)],
              assignedPlayers := insert (player_id p) (assignedPlayers s)\<rparr>"
  from Cons.prems(1) a have i: "i < length (teams s)" and r: "assign_goalkeepers pairs ?s1 = Inr s'"
    by (auto split: if_splits)
  have none: "goalkeeper (formation (teams s ! i)) = None" using Cons.prems(3) a by simp
  have k1: "mset (team_keepers (teams ?s1)) = add_mset ?p (mset (team_keepers (teams s)))"
    using mset_team_keepers_update [OF i none, of "set_goalkeeper ?p (teams s ! i)" ?p]
    by (simp add: set_goalkeeper_def)
  have d: "distinct (map fst pairs)" and ni: "i \<notin> fst ` set pairs"
    using Cons.prems(2) a by auto
  have rest: "\<forall>j \<in> fst ` set pairs. goalkeeper (formation (teams ?s1 ! j)) = None"
  proof
    fix j assume j: "j \<in> fst ` set pairs"
    then have ne: "i \<noteq> j" using ni by blast
    have "j \<in> fst ` set (a # pairs)" using j by simp
    then have old: "goalkeeper (formation (teams s ! j)) = None" by (rule bspec [OF Cons.prems(3)])
    have "teams ?s1 ! j = teams s ! j"
      using nth_list_update_neq [OF ne] by simp
    then show "goalkeeper (formation (teams ?s1 ! j)) = None" using old by simp
  qed
  have tail: "mset (team_keepers (teams s'))
       = mset (team_keepers (teams ?s1))
         + mset (map (\<lambda>(i, p). p\<lparr>assignedPosition := Some ''GK''\<rparr>) pairs)"
    by (rule Cons.IH [OF r d rest])
  show ?case unfolding tail k1 a by simp
qed

section \<open>The run, phase by phase\<close>

lemma assignmentPool_players:
  assumes "assignmentPool n srt s g = (pool, g')"
  shows "item_player ` set pool \<subseteq> set srt"
proof -
  let ?rest = "filter (\<lambda>p. player_id p \<notin> assignedPlayers s) srt"
  obtain ds g1 where d: "shuffleArray (filter (can_play positionCategories_defenders) ?rest) g
                         = (ds, g1)"
    by (cases "shuffleArray (filter (can_play positionCategories_defenders) ?rest) g")
  obtain ms g2 where m: "shuffleArray (filter (can_play positionCategories_midfielders) ?rest) g1
                         = (ms, g2)"
    by (cases "shuffleArray (filter (can_play positionCategories_midfielders) ?rest) g1")
  obtain fs g3 where f: "shuffleArray (filter (can_play positionCategories_forwards) ?rest) g2
                         = (fs, g3)"
    by (cases "shuffleArray (filter (can_play positionCategories_forwards) ?rest) g2")
  let ?items = "map (\<lambda>p. \<lparr>item_player = p, priority = Defender\<rparr>) (take (n * 4) ds)
            @ map (\<lambda>p. \<lparr>item_player = p, priority = Midfielder\<rparr>) (take (n * 4) ms)
            @ map (\<lambda>p. \<lparr>item_player = p, priority = Forward\<rparr>) (take (n * 3) fs)"
  have "shuffleArray ?items g3 = (pool, g')"
    using assms d m f by (simp add: assignmentPool_def)
  then have "set pool = set ?items" by (rule shuffleArray_set)
  then have "item_player ` set pool
             \<subseteq> set (take (n * 4) ds) \<union> set (take (n * 4) ms) \<union> set (take (n * 3) fs)"
    by (auto simp: image_iff)
  moreover have "set ds \<subseteq> set srt" "set ms \<subseteq> set srt" "set fs \<subseteq> set srt"
    using shuffleArray_set [OF d] shuffleArray_set [OF m] shuffleArray_set [OF f] by auto
  ultimately show ?thesis
    using set_take_subset [of "n * 4" ds] set_take_subset [of "n * 4" ms]
      set_take_subset [of "n * 3" fs]
    by blast
qed

lemma run_phases_cases:
  fixes n sizes ps g
  defines "srt \<equiv> sort_key (\<lambda>p. - effective_rating p) ps"
  defines "cap \<equiv> filter (\<lambda>p. ''GK'' \<in> set (positions p)) srt"
  obtains c d order pref alt s1 pool s2 g4 rem g5 where
    "0 < n \<longrightarrow> c < n"
    "item_player ` set pool \<subseteq> set ps"
    "snake_draft n pool s1 = Inr s2"
    "draft_phases n sizes ps g = Inr (s2, g4)"
    "shuffleArray (filter (\<lambda>p. player_id p \<notin> assignedPlayers s2) (sortPlayers ps)) g4
       = (rem, g5)"
    "mset order = mset [0..<n]"
    "mset pref = mset (filter (\<lambda>p. preferredPosition p = ''GK'') cap)"
    "mset alt = mset (filter (\<lambda>p. preferredPosition p \<noteq> ''GK'') cap)"
    "assign_goalkeepers (zip order (pref @ alt)) (init_state n sizes c d) = Inr s1"
    "length (teams s1) = n"
    "draft_steps True s1 s2"
    "mset rem = mset (filter (\<lambda>p. player_id p \<notin> assignedPlayers s2) srt)"
    "run_phases n sizes ps g = Inr (sweep rem s2)"
proof -
  obtain c g1 where rb: "random_below n g = (c, g1)" by (cases "random_below n g")
  obtain d g2 where rd: "random_direction g1 = (d, g2)" by (cases "random_direction g1")
  let ?s0 = "init_state n sizes c d"
  obtain pref g3 where sp:
    "shuffleArray (filter (\<lambda>p. preferredPosition p = ''GK'') cap) g2 = (pref, g3)"
    by (cases "shuffleArray (filter (\<lambda>p. preferredPosition p = ''GK'') cap) g2")
  obtain alt g4 where sa:
    "shuffleArray (filter (\<lambda>p. preferredPosition p \<noteq> ''GK'') cap) g3 = (alt, g4)"
    by (cases "shuffleArray (filter (\<lambda>p. preferredPosition p \<noteq> ''GK'') cap) g3")
  obtain order g5 where so: "shuffleArray [0..<n] g4 = (order, g5)"
    by (cases "shuffleArray [0..<n] g4")
  have c: "0 < n \<longrightarrow> c < n" using random_below_less [of n g] rb by simp
  have len0: "length (teams ?s0) = n" by (simp add: init_state_def)
  have "set order = {0..<n}" using shuffleArray_set [OF so] by simp
  then have "\<forall>i \<in> fst ` set (zip order (pref @ alt)). i < length (teams ?s0)"
    using len0 by (auto dest: set_zip_leftD)
  from assign_goalkeepers_ok [OF this] obtain s1 where
    ag: "assign_goalkeepers (zip order (pref @ alt)) ?s0 = Inr s1"
    and len1: "length (teams s1) = n" and cur1: "currentTeam s1 = int c"
    using len0 by (auto simp: init_state_def)
  have p1: "phase1 n srt ?s0 g2 = Inr (s1, g5)"
    using sp sa so ag by (simp add: phase1_def init_state_def cap_def)
  obtain pool g6 where ap: "assignmentPool n srt s1 g5 = (pool, g6)"
    by (cases "assignmentPool n srt s1 g5")
  have "\<exists>s2. snake_draft n pool s1 = Inr s2"
  proof (cases "n = 0")
    case True
    have "length pool = 0"
      using ap True unfolding assignmentPool_def Let_def
      by (auto split: prod.splits dest: shuffleArray_length)
    then show ?thesis by simp
  next
    case False
    then have "in_range n s1" using c len1 cur1 by (simp add: in_range_def)
    from snake_draft_ok [OF this] show ?thesis by blast
  qed
  then obtain s2 where sd: "snake_draft n pool s1 = Inr s2" by blast
  have st: "draft_steps True s1 s2" by (rule snake_draft_steps [OF sd steps_refl])
  obtain rem g7 where sr:
    "shuffleArray (filter (\<lambda>p. player_id p \<notin> assignedPlayers s2) srt) g6 = (rem, g7)"
    by (cases "shuffleArray (filter (\<lambda>p. player_id p \<notin> assignedPlayers s2) srt) g6")
  have dp: "draft_phases n sizes ps g = Inr (s2, g6)"
    using rb rd p1 ap sd by (simp add: draft_phases_def sortPlayers_def srt_def init_state_def)
  have run: "run_phases n sizes ps g = Inr (sweep rem s2)"
    using dp sr by (simp add: run_phases_def sortPlayers_def srt_def)
  have pl: "item_player ` set pool \<subseteq> set ps"
    using assignmentPool_players [OF ap] by (simp add: srt_def)
  have sr': "shuffleArray (filter (\<lambda>p. player_id p \<notin> assignedPlayers s2) (sortPlayers ps)) g6
             = (rem, g7)"
    using sr by (simp add: sortPlayers_def srt_def)
  show thesis
    by (rule that [OF c pl sd dp sr' shuffleArray_perm [OF so] shuffleArray_perm [OF sp]
          shuffleArray_perm [OF sa] ag len1 st shuffleArray_perm [OF sr] run])
qed

lemma run_phases_decompose:
  fixes n sizes ps g
  defines "srt \<equiv> sort_key (\<lambda>p. - effective_rating p) ps"
  defines "cap \<equiv> filter (\<lambda>p. ''GK'' \<in> set (positions p)) srt"
  shows "\<exists>c d order pref alt s1 s2 rem.
           (0 < n \<longrightarrow> c < n)
         \<and> mset order = mset [0..<n]
         \<and> mset pref = mset (filter (\<lambda>p. preferredPosition p = ''GK'') cap)
         \<and> mset alt = mset (filter (\<lambda>p. preferredPosition p \<noteq> ''GK'') cap)
         \<and> assign_goalkeepers (zip order (pref @ alt)) (init_state n sizes c d) = Inr s1
         \<and> length (teams s1) = n
         \<and> draft_steps True s1 s2
         \<and> mset rem = mset (filter (\<lambda>p. player_id p \<notin> assignedPlayers s2) srt)
         \<and> run_phases n sizes ps g = Inr (sweep rem s2)"
proof (rule run_phases_cases [where n = n and sizes = sizes and ps = ps and g = g])
  fix c d order pref alt s1 pool s2 g4 rem g5
  assume "0 < n \<longrightarrow> c < n"
    and "mset order = mset [0..<n]"
    and "mset pref = mset (filter (\<lambda>p. preferredPosition p = ''GK'')
                           (filter (\<lambda>p. ''GK'' \<in> set (positions p))
                              (sort_key (\<lambda>p. - effective_rating p) ps)))"
    and "mset alt = mset (filter (\<lambda>p. preferredPosition p \<noteq> ''GK'')
                          (filter (\<lambda>p. ''GK'' \<in> set (positions p))
                             (sort_key (\<lambda>p. - effective_rating p) ps)))"
    and "assign_goalkeepers (zip order (pref @ alt)) (init_state n sizes c d) = Inr s1"
    and "length (teams s1) = n"
    and "draft_steps True s1 s2"
    and "mset rem = mset (filter (\<lambda>p. player_id p \<notin> assignedPlayers s2)
                          (sort_key (\<lambda>p. - effective_rating p) ps))"
    and "run_phases n sizes ps g = Inr (sweep rem s2)"
  then show ?thesis
    unfolding srt_def cap_def by (intro exI conjI)
qed

section \<open>The returned teams\<close>

lemma strip_fields [simp]:
  "player_id (strip p) = player_id p" "positions (strip p) = positions p"
  "preferredPosition (strip p) = preferredPosition p"
  "assignedPosition (strip p) = assignedPosition p"
  "gkStats (strip p) = gkStats p" "outfieldStats (strip p) = outfieldStats p"
  "tempRatingAdjustment (strip p) = None"
  by (simp_all add: strip_def)

lemma calculate_stats_fields [simp]:
  "players (calculate_stats t) = map strip (players t)"
  "targetSize (calculate_stats t) = targetSize t"
  "team_id (calculate_stats t) = team_id t"
  "goalkeeper (formation (calculate_stats t)) = map_option strip (goalkeeper (formation t))"
  "defenders (formation (calculate_stats t)) = map strip (defenders (formation t))"
  "midfielders (formation (calculate_stats t)) = map strip (midfielders (formation t))"
  "forwards (formation (calculate_stats t)) = map strip (forwards (formation t))"
  by (simp_all add: calculate_stats_def Let_def)

lemma assigned_ids_calculate_stats [simp]:
  "assigned_ids (map calculate_stats ts) = assigned_ids ts"
  by (induction ts) (simp_all add: assigned_ids_def comp_def)

lemma caps_ok_calculate_stats [simp]: "caps_ok (calculate_stats t) = caps_ok t"
  by (simp add: caps_ok_def)

lemma below_target_calculate_stats [simp]: "below_target (calculate_stats t) = below_target t"
  by (simp add: below_target_def split: option.splits)

lemma team_keepers_calculate_stats:
  "team_keepers (map calculate_stats ts) = map strip (team_keepers ts)"
  by (induction ts) (auto simp: team_keepers_def split: option.splits)

lemma keeper_ok_calculate_stats: "keeper_ok t \<Longrightarrow> keeper_ok (calculate_stats t)"
  by (auto simp: keeper_ok_def split: option.splits)

lemma createBalancedTeamsWithSizeControl_Inr:
  "run_phases n sizes ps g = Inr s \<Longrightarrow>
   createBalancedTeamsWithSizeControl n sizes ps g = Inr (map calculate_stats (teams s))"
  by (simp add: createBalancedTeamsWithSizeControl_def)

lemma init_state_fields [simp]:
  "teams (init_state n sizes c d) = map (new_team sizes) [0..<n]"
  "assignedPlayers (init_state n sizes c d) = {}"
  "currentTeam (init_state n sizes c d) = int c"
  by (simp_all add: init_state_def)

lemma assigned_ids_new_teams [simp]: "assigned_ids (map (new_team sizes) xs) = []"
  by (induction xs) (simp_all add: assigned_ids_def new_team_def)

lemma ids_inv_init: "ids_inv (init_state n sizes c d)"
  by (simp add: ids_inv_def marks_inv_def)


lemma caps_ok_init: "list_all caps_ok (teams (init_state n sizes c d))"
  by (simp add: list_all_iff caps_ok_def new_team_def)

lemma keeper_ok_init: "list_all keeper_ok (teams (init_state n sizes c d))"
  by (simp add: list_all_iff keeper_ok_def new_team_def)

lemma team_keepers_new_teams [simp]: "team_keepers (map (new_team sizes) xs) = []"
  by (induction xs) (simp_all add: team_keepers_def new_team_def)

section \<open>The cursor of the snake draft\<close>

text \<open>
  C10. For a team count of at least one, the cursor of the snake draft starts inside
  \<open>0..numTeams-1\<close>; an advance with the clamp-and-flip rule keeps it there whatever
  the direction; from a state with the cursor in range, phase 2 reads \<open>teams[currentTeam]\<close>
  only at valid indices (it returns without a TypeError) and ends with the cursor in
  range; and the whole generator returns its teams.
\<close>

theorem snake_cursor_in_range:
  assumes "1 \<le> numTeams"
  shows "fst (random_below numTeams g) < numTeams
       \<and> (\<forall>st. in_range numTeams st \<longrightarrow> in_range numTeams (advance numTeams st))
       \<and> (\<forall>st pool. in_range numTeams st \<longrightarrow>
            (\<exists>st'. snake_draft numTeams pool st = Inr st' \<and> in_range numTeams st'))
       \<and> (\<exists>ts. createBalancedTeamsWithSizeControl numTeams targetTeamSizes playersToUse g = Inr ts)"
proof -
  have a: "fst (random_below numTeams g) < numTeams"
    using assms by (simp add: random_below_less)
  have b: "\<forall>st. in_range numTeams st \<longrightarrow> in_range numTeams (advance numTeams st)"
    by (simp add: advance_in_range)
  have c: "\<forall>st pool. in_range numTeams st \<longrightarrow>
            (\<exists>st'. snake_draft numTeams pool st = Inr st' \<and> in_range numTeams st')"
    by (simp add: snake_draft_ok)
  from run_phases_decompose
    [where n = numTeams and sizes = targetTeamSizes and ps = playersToUse and g = g]
  obtain s where "run_phases numTeams targetTeamSizes playersToUse g = Inr s" by blast
  then have d: "\<exists>ts. createBalancedTeamsWithSizeControl numTeams targetTeamSizes playersToUse g = Inr ts"
    by (simp add: createBalancedTeamsWithSizeControl_Inr)
  from a b c d show ?thesis by blast
qed

theorem snake_cursor_in_range_witness:
  "(1::nat) \<le> 1
   \<and> in_range 1 (init_state 1 [2] 0 1)
   \<and> in_range 1 (advance 1 (init_state 1 [2] 0 1))
   \<and> currentTeam (advance 1 (init_state 1 [2] 0 1)) = 0
   \<and> direction (advance 1 (init_state 1 [2] 0 1)) = - 1
   \<and> (\<exists>st'. snake_draft 1
                [\<lparr>item_player = example_player 2 [''CB'', ''CM''] ''CB'' None (Some 70),
                  priority = Defender\<rparr>] (init_state 1 [2] 0 1) = Inr st'
            \<and> in_range 1 st')"
proof -
  have h: "(1::nat) \<le> 1" by simp
  have r: "in_range 1 (init_state 1 [2] 0 1)"
    by (simp add: in_range_def init_state_def)
  have v: "currentTeam (advance 1 (init_state 1 [2] 0 1)) = 0
           \<and> direction (advance 1 (init_state 1 [2] 0 1)) = - 1"
    by (simp add: advance_def init_state_def)
  from snake_cursor_in_range [OF h] r have "in_range 1 (advance 1 (init_state 1 [2] 0 1))"
    by blast
  moreover from snake_cursor_in_range [OF h] r
  have "\<exists>st'. snake_draft 1
                [\<lparr>item_player = example_player 2 [''CB'', ''CM''] ''CB'' None (Some 70),
                  priority = Defender\<rparr>] (init_state 1 [2] 0 1) = Inr st'
            \<and> in_range 1 st'"
    by blast
  ultimately show ?thesis using h r v by blast
qed

section \<open>No double assignment, formation caps\<close>

lemma mset_partition_filter:
  "mset (filter P xs) + mset (filter (\<lambda>x. \<not> P x) xs) = mset xs"
  by (induction xs) simp_all

lemma keeper_candidates_perm:
  assumes "mset pref = mset (filter P cap)" "mset alt = mset (filter (\<lambda>x. \<not> P x) cap)"
  shows "mset (pref @ alt) = mset cap"
  using assms mset_partition_filter [of P cap] by simp

lemma distinct_ids_perm:
  "mset xs = mset ys \<Longrightarrow> distinct (map player_id xs) = distinct (map player_id ys)"
  by (metis mset_eq_imp_distinct_iff mset_map)

lemma sorted_players_distinct:
  "distinct (map player_id (sort_key k ps)) = distinct (map player_id ps)"
  by (rule distinct_ids_perm) simp

text \<open>
  C1. When the input players have pairwise different ids, the generator returns its
  teams and no id occurs twice on the team sheets: not twice in one team's \<open>players\<close>
  and not in two teams. This holds although a player who can play in several lines
  enters the assignment pool once per line.
\<close>

theorem no_double_assignment:
  assumes "distinct (map player_id playersToUse)"
  shows "\<exists>ts. createBalancedTeamsWithSizeControl numTeams targetTeamSizes playersToUse g = Inr ts
              \<and> distinct (assigned_ids ts)"
proof -
  let ?srt = "sort_key (\<lambda>p. - effective_rating p) playersToUse"
  let ?cap = "filter (\<lambda>p. ''GK'' \<in> set (positions p)) ?srt"
  from run_phases_decompose
    [where n = numTeams and sizes = targetTeamSizes and ps = playersToUse and g = g]
  obtain c d order pref alt s1 s2 rem where
    pref: "mset pref = mset (filter (\<lambda>p. preferredPosition p = ''GK'') ?cap)"
    and alt: "mset alt = mset (filter (\<lambda>p. preferredPosition p \<noteq> ''GK'') ?cap)"
    and ag: "assign_goalkeepers (zip order (pref @ alt)) (init_state numTeams targetTeamSizes c d)
             = Inr s1"
    and st: "draft_steps True s1 s2"
    and rem: "mset rem = mset (filter (\<lambda>p. player_id p \<notin> assignedPlayers s2) ?srt)"
    and run: "run_phases numTeams targetTeamSizes playersToUse g = Inr (sweep rem s2)"
    by blast
  have dsrt: "distinct (map player_id ?srt)"
    using assms by (simp add: sorted_players_distinct)
  have "distinct (map player_id ?cap)" using dsrt by (rule distinct_map_filter)
  then have "distinct (map player_id (pref @ alt))"
    using distinct_ids_perm [OF keeper_candidates_perm [OF pref alt]] by simp
  then have "distinct (map player_id (take (min (length order) (length (pref @ alt))) (pref @ alt)))"
    unfolding take_map [symmetric] by (rule distinct_take)
  then have dp: "distinct (map (player_id \<circ> snd) (zip order (pref @ alt)))"
    by (simp only: map_map [symmetric] map_snd_zip_take)
  have inv1: "ids_inv s1"
    by (rule assign_goalkeepers_ids_inv [OF ag ids_inv_init dp]) simp
  have inv2: "ids_inv s2" by (rule draft_steps_ids_inv [OF st inv1])
  have "distinct (map player_id (filter (\<lambda>p. player_id p \<notin> assignedPlayers s2) ?srt))"
    using dsrt by (rule distinct_map_filter)
  then have drem: "distinct (map player_id rem)"
    using distinct_ids_perm [OF rem] by simp
  have "set rem = set (filter (\<lambda>p. player_id p \<notin> assignedPlayers s2) ?srt)"
    by (rule mset_eq_setD [OF rem])
  then have "player_id ` set rem \<inter> assignedPlayers s2 = {}" by auto
  with drem have "draft_steps True s2 (sweep rem s2)"
    by (intro sweep_steps steps_refl) simp
  then have "ids_inv (sweep rem s2)" using inv2 by (rule draft_steps_ids_inv)
  then have "distinct (assigned_ids (map calculate_stats (teams (sweep rem s2))))"
    by (simp add: ids_inv_def)
  then show ?thesis
    using createBalancedTeamsWithSizeControl_Inr [OF run] by simp
qed

text \<open>
  C4. The generator returns teams whose formation respects the slot caps: at most 4
  defenders, 4 midfielders and 3 forwards, and a goalkeeper slot holding at most one
  player. A player added as a substitute is appended to \<open>players\<close> only and leaves the
  formation as it is.
\<close>

theorem formation_capacity:
  "(\<exists>ts. createBalancedTeamsWithSizeControl numTeams targetTeamSizes playersToUse g = Inr ts
         \<and> list_all caps_ok ts
         \<and> list_all (\<lambda>t. length (team_keepers [t]) \<le> 1) ts)
   \<and> formation (push_substitute p t) = formation t
   \<and> players (push_substitute p t) = players t @ [p]"
proof -
  from run_phases_decompose
    [where n = numTeams and sizes = targetTeamSizes and ps = playersToUse and g = g]
  obtain c d order pref alt s1 s2 rem where
    ag: "assign_goalkeepers (zip order (pref @ alt)) (init_state numTeams targetTeamSizes c d)
             = Inr s1"
    and st: "draft_steps True s1 s2"
    and run: "run_phases numTeams targetTeamSizes playersToUse g = Inr (sweep rem s2)"
    by blast
  have "list_all caps_ok (teams s1)"
    by (rule assign_goalkeepers_caps [OF ag caps_ok_init])
  then have "list_all caps_ok (teams s2)" by (rule draft_steps_caps [OF st])
  moreover have "draft_steps False s2 (sweep rem s2)"
    by (intro sweep_steps steps_refl) simp
  ultimately have "list_all caps_ok (teams (sweep rem s2))" by (rule draft_steps_caps [rotated])
  then have a: "list_all caps_ok (map calculate_stats (teams (sweep rem s2)))"
    by (simp add: list_all_iff)
  have b: "list_all (\<lambda>t. length (team_keepers [t]) \<le> 1) ts" for ts
    by (simp add: list_all_iff team_keepers_def split: option.splits)
  show ?thesis
    using createBalancedTeamsWithSizeControl_Inr [OF run] a b
    by (simp add: push_substitute_def)
qed

section \<open>Goalkeeper allocation\<close>

lemma team_keepers_cong:
  assumes "map (\<lambda>t. goalkeeper (formation t)) ts = map (\<lambda>t. goalkeeper (formation t)) ts'"
  shows "team_keepers ts = team_keepers ts'"
proof -
  have eq: "team_keepers xs
        = concat (map (\<lambda>k. case k of None \<Rightarrow> [] | Some k \<Rightarrow> [k])
                   (map (\<lambda>t. goalkeeper (formation t)) xs))" for xs
    by (simp add: team_keepers_def comp_def)
  show ?thesis by (simp only: eq assms)
qed

lemma length_team_keepers:
  "length (team_keepers ts) = length (filter (\<lambda>t. goalkeeper (formation t) \<noteq> None) ts)"
  by (induction ts) (auto simp: team_keepers_def)

lemma keeper_ok_grows: "keeper_ok t \<Longrightarrow> team_grows t p t' \<Longrightarrow> keeper_ok t'"
  by (auto simp: keeper_ok_def team_grows_def split: option.splits)

lemma as_keeper_fields [simp]:
  "preferredPosition (as_keeper p) = preferredPosition p"
  "positions (as_keeper p) = positions p"
  "player_id (as_keeper p) = player_id p"
  "assignedPosition (as_keeper p) = Some ''GK''"
  by (simp_all add: as_keeper_def)

lemma mset_eq_filter_length:
  "mset xs = mset ys \<Longrightarrow> length (filter P xs) = length (filter P ys)"
  by (metis mset_filter size_mset)

lemma mset_eq_filter_set:
  "mset xs = mset ys \<Longrightarrow> set (filter P xs) = set (filter P ys)"
  by (metis mset_filter set_mset_mset)

text \<open>
  C5. The generator returns its teams, and with \<open>k\<close> input players able to play \<open>GK\<close>:
  exactly \<open>min numTeams k\<close> teams have a goalkeeper; every goalkeeper is a
  goalkeeper-capable input player, has \<open>assignedPosition = GK\<close> and is on the player
  list of its team; if some goalkeeper prefers another position, then every input
  player who can play and prefers \<open>GK\<close> is a goalkeeper; and if at least \<open>numTeams\<close>
  input players can play and prefer \<open>GK\<close>, every goalkeeper prefers \<open>GK\<close>.
\<close>

theorem goalkeeper_allocation:
  "\<exists>ts. createBalancedTeamsWithSizeControl numTeams targetTeamSizes playersToUse g = Inr ts
     \<and> length (filter (\<lambda>t. goalkeeper (formation t) \<noteq> None) ts)
         = min numTeams (length (filter (\<lambda>p. ''GK'' \<in> set (positions p)) playersToUse))
     \<and> list_all keeper_ok ts
     \<and> list_all (\<lambda>k. k \<in> as_keeper ` set (filter (\<lambda>p. ''GK'' \<in> set (positions p)) playersToUse))
          (team_keepers ts)
     \<and> (list_ex (\<lambda>k. preferredPosition k \<noteq> ''GK'') (team_keepers ts) \<longrightarrow>
          list_all (\<lambda>p. ''GK'' \<in> set (positions p) \<and> preferredPosition p = ''GK''
                         \<longrightarrow> as_keeper p \<in> set (team_keepers ts)) playersToUse)
     \<and> (numTeams \<le> length (filter (\<lambda>p. ''GK'' \<in> set (positions p)
                                         \<and> preferredPosition p = ''GK'') playersToUse) \<longrightarrow>
          list_all (\<lambda>k. preferredPosition k = ''GK'') (team_keepers ts))"
proof -
  let ?srt = "sort_key (\<lambda>p. - effective_rating p) playersToUse"
  let ?A = "\<lambda>p. ''GK'' \<in> set (positions p)"
  let ?B = "\<lambda>p. preferredPosition p = ''GK''"
  let ?cap = "filter ?A ?srt"
  let ?mark = "\<lambda>p. p\<lparr>assignedPosition := Some ''GK''\<rparr>"
  from run_phases_decompose
    [where n = numTeams and sizes = targetTeamSizes and ps = playersToUse and g = g]
  obtain c d order pref alt s1 s2 rem where
    order: "mset order = mset [0..<numTeams]"
    and pref: "mset pref = mset (filter ?B ?cap)"
    and alt: "mset alt = mset (filter (\<lambda>p. \<not> ?B p) ?cap)"
    and ag: "assign_goalkeepers (zip order (pref @ alt)) (init_state numTeams targetTeamSizes c d)
             = Inr s1"
    and st: "draft_steps True s1 s2"
    and run: "run_phases numTeams targetTeamSizes playersToUse g = Inr (sweep rem s2)"
    by blast
  let ?gks = "pref @ alt"
  let ?pairs = "zip order ?gks"
  let ?s0 = "init_state numTeams targetTeamSizes c d"
  let ?s3 = "sweep rem s2"
  let ?ts = "map calculate_stats (teams ?s3)"
  have st3: "draft_steps False s2 ?s3" by (intro sweep_steps steps_refl) simp
  \<comment> \<open>the team order and the candidates\<close>
  have lo: "length order = numTeams" using mset_eq_length [OF order] by simp
  have so: "set order = {0..<numTeams}" using mset_eq_setD [OF order] by simp
  have "distinct order" using mset_eq_imp_distinct_iff [OF order] by simp
  then have "distinct (take (min (length order) (length ?gks)) order)" by (rule distinct_take)
  then have dfst: "distinct (map fst ?pairs)" by (simp only: map_fst_zip_take)
  have gks: "mset ?gks = mset ?cap" by (rule keeper_candidates_perm [OF pref alt])
  have setgks: "set ?gks = set (filter ?A playersToUse)"
    using mset_eq_setD [OF gks] by auto
  have lengks: "length ?gks = length (filter ?A playersToUse)"
    using mset_eq_length [OF gks] mset_eq_filter_length [of ?srt playersToUse ?A] by simp
  have setpref: "set pref = set (filter (\<lambda>p. ?A p \<and> ?B p) playersToUse)"
    using mset_eq_setD [OF pref] by auto
  have lenpref: "length pref = length (filter (\<lambda>p. ?A p \<and> ?B p) playersToUse)"
  proof -
    have "length pref = length (filter (\<lambda>p. ?A p \<and> ?B p) ?srt)"
      using mset_eq_length [OF pref] by (simp add: conj_commute)
    then show ?thesis
      using mset_eq_filter_length [of ?srt playersToUse "\<lambda>p. ?A p \<and> ?B p"] by simp
  qed
  have snd_pairs: "map snd ?pairs = take numTeams ?gks"
    by (simp only: map_snd_zip_take lo) (simp add: min_def)
  \<comment> \<open>the goalkeepers after phase 1\<close>
  have none: "\<forall>i \<in> fst ` set ?pairs. goalkeeper (formation (teams ?s0 ! i)) = None"
  proof
    fix i assume "i \<in> fst ` set ?pairs"
    then have "i \<in> set order" by (auto dest: set_zip_leftD)
    then have "i < numTeams" using so by simp
    then show "goalkeeper (formation (teams ?s0 ! i)) = None"
      by (simp add: new_team_def)
  qed
  have "mset (team_keepers (teams s1)) = mset (map (\<lambda>(i, p). ?mark p) ?pairs)"
    using assign_goalkeepers_keepers [OF ag dfst none] by simp
  also have "map (\<lambda>(i, p). ?mark p) ?pairs = map ?mark (map snd ?pairs)"
    by (simp add: case_prod_unfold)
  finally have k1: "mset (team_keepers (teams s1)) = mset (map ?mark (take numTeams ?gks))"
    by (simp only: snd_pairs)
  have "map (\<lambda>t. goalkeeper (formation t)) (teams ?s3)
        = map (\<lambda>t. goalkeeper (formation t)) (teams s1)"
    using draft_steps_goalkeeper [OF st] draft_steps_goalkeeper [OF st3] by simp
  then have same: "team_keepers (teams ?s3) = team_keepers (teams s1)"
    by (rule team_keepers_cong)
  have eqK: "team_keepers ?ts = map strip (team_keepers (teams s1))"
    by (simp only: team_keepers_calculate_stats same)
  have "mset (team_keepers ?ts) = image_mset strip (mset (map ?mark (take numTeams ?gks)))"
    by (simp only: eqK mset_map k1)
  also have "\<dots> = mset (map as_keeper (take numTeams ?gks))"
  proof -
    have "as_keeper = (\<lambda>p. strip (?mark p))" by (rule ext) (simp add: as_keeper_def)
    then show ?thesis by (simp add: multiset.map_comp comp_def)
  qed
  finally have K: "mset (team_keepers ?ts) = mset (map as_keeper (take numTeams ?gks))" .
  have setK: "set (team_keepers ?ts) = as_keeper ` set (take numTeams ?gks)"
    using mset_eq_setD [OF K] by (simp only: set_map)
  \<comment> \<open>the conjuncts\<close>
  have "length (team_keepers ?ts) = length (map as_keeper (take numTeams ?gks))"
    by (rule mset_eq_length [OF K])
  also have "\<dots> = min (length ?gks) numTeams"
    by (simp only: length_map length_take)
  finally have la: "length (team_keepers ?ts) = min (length ?gks) numTeams" .
  have a: "length (filter (\<lambda>t. goalkeeper (formation t) \<noteq> None) ?ts)
           = min numTeams (length (filter ?A playersToUse))"
    unfolding length_team_keepers [symmetric] la lengks by (rule min.commute)
  have "\<forall>p \<in> snd ` set ?pairs. ?A p"
  proof
    fix p assume "p \<in> snd ` set ?pairs"
    then obtain i where "(i, p) \<in> set ?pairs" by force
    then have "p \<in> set ?gks" by (rule set_zip_rightD)
    then have "p \<in> set (filter ?A playersToUse)" by (simp only: setgks)
    then show "?A p" by simp
  qed
  then have ok1: "list_all keeper_ok (teams s1)"
    by (rule assign_goalkeepers_keeper_ok [OF ag keeper_ok_init])
  have ok2: "list_all keeper_ok (teams s2)"
    by (rule draft_steps_list_all [OF st ok1 keeper_ok_grows])
  have "list_all keeper_ok (teams ?s3)"
    by (rule draft_steps_list_all [OF st3 ok2 keeper_ok_grows])
  then have b: "list_all keeper_ok ?ts"
    by (simp add: list_all_iff keeper_ok_calculate_stats)
  have c: "list_all (\<lambda>k. k \<in> as_keeper ` set (filter ?A playersToUse)) (team_keepers ?ts)"
    unfolding list_all_iff setK using setgks set_take_subset [of numTeams ?gks] by blast
  have d: "list_all (\<lambda>p. ?A p \<and> ?B p \<longrightarrow> as_keeper p \<in> set (team_keepers ?ts)) playersToUse"
    if "list_ex (\<lambda>k. \<not> ?B k) (team_keepers ?ts)"
  proof -
    from that obtain p where p: "p \<in> set (take numTeams ?gks)" and np: "\<not> ?B p"
      unfolding list_ex_iff setK by auto
    have "p \<notin> set pref" using np setpref by auto
    then have "p \<notin> set (take numTeams pref)" using set_take_subset [of numTeams pref] by blast
    then have "p \<in> set (take (numTeams - length pref) alt)" using p by simp
    then have "length pref < numTeams" by (cases "numTeams - length pref") auto
    then have "set pref \<subseteq> set (take numTeams ?gks)" by simp
    then show ?thesis
      unfolding list_all_iff setK using setpref by auto
  qed
  have e: "list_all ?B (team_keepers ?ts)"
    if "numTeams \<le> length (filter (\<lambda>p. ?A p \<and> ?B p) playersToUse)"
  proof -
    have "take numTeams ?gks = take numTeams pref" using that lenpref by simp
    then have "set (team_keepers ?ts) \<subseteq> as_keeper ` set pref"
      unfolding setK using set_take_subset [of numTeams pref] by auto
    then show ?thesis
      unfolding list_all_iff using setpref by auto
  qed
  show ?thesis
    using createBalancedTeamsWithSizeControl_Inr [OF run] a b c d e
    by (intro exI [of _ ?ts]) simp
qed

section \<open>What is on the team sheets comes from the input\<close>

lemma on_sheets_update:
  assumes "on_sheets Q ts" "i < length ts" "players t' = players (ts ! i) @ [p']" "Q p'"
  shows "on_sheets Q (ts[i := t'])"
proof -
  have "list_all Q (players (ts ! i))"
    using assms(1,2) by (simp add: on_sheets_def list_all_length)
  then have "list_all Q (players t')" using assms(3,4) by simp
  then show ?thesis
    using assms(1) unfolding on_sheets_def
    by (auto simp: list_all_iff dest: subsetD [OF set_update_subset_insert])
qed

lemma on_sheets_grows:
  assumes "on_sheets Q ts" "i < length ts" "team_grows (ts ! i) p t'"
    and "\<And>pos. Q (p\<lparr>assignedPosition := pos\<rparr>)"
  shows "on_sheets Q (ts[i := t'])"
proof -
  from assms(3) obtain pos where
    "players t' = players (ts ! i) @ [p\<lparr>assignedPosition := pos\<rparr>]"
    unfolding team_grows_def by blast
  from on_sheets_update [OF assms(1,2) this assms(4)] show ?thesis .
qed

lemma assign_goalkeepers_sheets:
  "assign_goalkeepers pairs s = Inr s' \<Longrightarrow> on_sheets Q (teams s)
   \<Longrightarrow> \<forall>p \<in> snd ` set pairs. Q (p\<lparr>assignedPosition := Some ''GK''\<rparr>)
   \<Longrightarrow> on_sheets Q (teams s')"
proof (induction pairs arbitrary: s)
  case Nil
  then show ?case by simp
next
  case (Cons a pairs)
  obtain i p where a: "a = (i, p)" by (cases a)
  let ?p = "p\<lparr>assignedPosition := Some ''GK''\<rparr>"
  let ?s1 = "s\<lparr>teams := (teams s)[i := set_goalkeeper ?p (teams s ! i)],
              assignedPlayers := insert (player_id p) (assignedPlayers s)\<rparr>"
  from Cons.prems(1) a have i: "i < length (teams s)" and r: "assign_goalkeepers pairs ?s1 = Inr s'"
    by (auto split: if_splits)
  have "Q ?p" using Cons.prems(3) a by simp
  then have "on_sheets Q ((teams s)[i := set_goalkeeper ?p (teams s ! i)])"
    by (intro on_sheets_update [OF Cons.prems(2) i]) (simp_all add: set_goalkeeper_def)
  then have one: "on_sheets Q (teams ?s1)" by simp
  have "\<forall>p \<in> snd ` set pairs. Q (p\<lparr>assignedPosition := Some ''GK''\<rparr>)"
    using Cons.prems(3) by simp
  from Cons.IH [OF r one this] show ?case .
qed

lemma place_attempts_sheets:
  "place_attempts n item a s = Inr (b, s') \<Longrightarrow> on_sheets Q (teams s)
   \<Longrightarrow> (\<And>pos. Q ((item_player item)\<lparr>assignedPosition := pos\<rparr>))
   \<Longrightarrow> on_sheets Q (teams s')"
proof (induction n item a s rule: place_attempts.induct)
  case (1 n item a s)
  show ?case
  proof (cases "a < n")
    case False
    then show ?thesis using "1.prems"(1,2) by (simp add: place_attempts.simps)
  next
    case True
    show ?thesis
    proof (cases "team_at (teams s) (currentTeam s)")
      case None
      then show ?thesis using True "1.prems"(1) by (simp add: place_attempts.simps)
    next
      case (Some t)
      note lookup = team_at_Some [OF Some]
      have adv: "on_sheets Q (teams (advance n s))" using "1.prems"(2) by simp
      show ?thesis
      proof (cases "reached_target t")
        case full: True
        have "place_attempts n item (a + 1) (advance n s) = Inr (b, s')"
          using "1.prems"(1) True Some full by (simp add: place_attempts.simps)
        from "1.IH"(1) [OF True Some full this adv "1.prems"(3)] show ?thesis .
      next
        case room: False
        show ?thesis
        proof (cases "try_assign item t")
          case None
          have "place_attempts n item (a + 1) (advance n s) = Inr (b, s')"
            using "1.prems"(1) True Some room None by (simp add: place_attempts.simps)
          from "1.IH"(2) [OF True Some room None this adv "1.prems"(3)] show ?thesis .
        next
          case placed: (Some t')
          have s': "s' = s\<lparr>teams := (teams s)[nat (currentTeam s) := t'],
                          assignedPlayers :=
                            insert (player_id (item_player item)) (assignedPlayers s)\<rparr>"
            using "1.prems"(1) True Some room placed by (simp add: place_attempts.simps)
          have g: "team_grows (teams s ! nat (currentTeam s)) (item_player item) t'"
            using team_grows_try_assign [OF placed] lookup by simp
          have "on_sheets Q ((teams s)[nat (currentTeam s) := t'])"
            by (rule on_sheets_grows [OF "1.prems"(2) _ g "1.prems"(3)]) (use lookup in simp)
          then show ?thesis by (simp add: s')
        qed
      qed
    qed
  qed
qed

lemma snake_draft_sheets:
  "snake_draft n pool s = Inr s' \<Longrightarrow> on_sheets Q (teams s)
   \<Longrightarrow> (\<And>p pos. p \<in> item_player ` set pool \<Longrightarrow> Q (p\<lparr>assignedPosition := pos\<rparr>))
   \<Longrightarrow> on_sheets Q (teams s')"
proof (induction pool arbitrary: s)
  case Nil
  then show ?case by simp
next
  case (Cons item pool)
  have tail: "\<And>p pos. p \<in> item_player ` set pool \<Longrightarrow> Q (p\<lparr>assignedPosition := pos\<rparr>)"
    using Cons.prems(3) by simp
  show ?case
  proof (cases "player_id (item_player item) \<in> assignedPlayers s")
    case True
    then have "snake_draft n pool s = Inr s'" using Cons.prems(1) by simp
    from Cons.IH [OF this Cons.prems(2) tail] show ?thesis .
  next
    case False
    from Cons.prems(1) False obtain b s1 where
      pa: "place_attempts n item 0 s = Inr (b, s1)"
      and rest: "snake_draft n pool (if b then advance n s1 else s1) = Inr s'"
      by (auto split: sum.splits)
    have "\<And>pos. Q ((item_player item)\<lparr>assignedPosition := pos\<rparr>)"
      using Cons.prems(3) by simp
    from place_attempts_sheets [OF pa Cons.prems(2) this]
    have "on_sheets Q (teams (if b then advance n s1 else s1))" by simp
    from Cons.IH [OF rest this tail] show ?thesis .
  qed
qed

lemma sweep_sheets:
  "on_sheets Q (teams s) \<Longrightarrow> (\<And>p pos. p \<in> set ps \<Longrightarrow> Q (p\<lparr>assignedPosition := pos\<rparr>))
   \<Longrightarrow> on_sheets Q (teams (sweep ps s))"
proof (induction ps arbitrary: s)
  case Nil
  then show ?case by simp
next
  case (Cons p ps)
  have tail: "\<And>q pos. q \<in> set ps \<Longrightarrow> Q (q\<lparr>assignedPosition := pos\<rparr>)"
    using Cons.prems(2) by simp
  show ?case
  proof (cases "sweep_player p s")
    case None
    then show ?thesis using Cons.prems(1) by simp
  next
    case (Some s1)
    from sweep_player_Some [OF Some] obtain i t' where
      i: "i < length (teams s)" and g: "team_grows (teams s ! i) p t'"
      and s1: "s1 = s\<lparr>teams := (teams s)[i := t'],
                       assignedPlayers := insert (player_id p) (assignedPlayers s)\<rparr>"
      by blast
    have "\<And>pos. Q (p\<lparr>assignedPosition := pos\<rparr>)" using Cons.prems(2) by simp
    from on_sheets_grows [OF Cons.prems(1) i g this]
    have "on_sheets Q (teams s1)" by (simp add: s1)
    from Cons.IH [OF this tail] show ?thesis using Some by simp
  qed
qed

lemma on_sheets_calculate_stats:
  assumes "on_sheets Q ts" "\<And>p. Q p \<Longrightarrow> Q (strip p)"
  shows "on_sheets Q (map calculate_stats ts)"
  using assms unfolding on_sheets_def by (auto simp: list_all_iff)

text \<open>
  A property of the input players that survives the two writes of the generator holds
  of every player on the returned team sheets.
\<close>

lemma returned_sheets:
  assumes all: "list_all Q playersToUse"
    and pos: "\<And>p pos. Q p \<Longrightarrow> Q (p\<lparr>assignedPosition := pos\<rparr>)"
    and str: "\<And>p. Q p \<Longrightarrow> Q (strip p)"
  shows "\<exists>ts. createBalancedTeamsWithSizeControl numTeams targetTeamSizes playersToUse g = Inr ts
              \<and> on_sheets Q ts"
proof (rule run_phases_cases
    [where n = numTeams and sizes = targetTeamSizes and ps = playersToUse and g = g])
  fix c d order pref alt s1 pool s2 g4 rem g5
  let ?srt = "sort_key (\<lambda>p. - effective_rating p) playersToUse"
  let ?cap = "filter (\<lambda>p. ''GK'' \<in> set (positions p)) ?srt"
  assume pool: "item_player ` set pool \<subseteq> set playersToUse"
    and sd: "snake_draft numTeams pool s1 = Inr s2"
    and pref: "mset pref = mset (filter (\<lambda>p. preferredPosition p = ''GK'') ?cap)"
    and alt: "mset alt = mset (filter (\<lambda>p. preferredPosition p \<noteq> ''GK'') ?cap)"
    and ag: "assign_goalkeepers (zip order (pref @ alt))
               (init_state numTeams targetTeamSizes c d) = Inr s1"
    and rem: "mset rem = mset (filter (\<lambda>p. player_id p \<notin> assignedPlayers s2) ?srt)"
    and run: "run_phases numTeams targetTeamSizes playersToUse g = Inr (sweep rem s2)"
  have Q: "\<And>p pos. p \<in> set playersToUse \<Longrightarrow> Q (p\<lparr>assignedPosition := pos\<rparr>)"
    using all pos by (simp add: list_all_iff)
  have "set (pref @ alt) = set ?cap"
    by (rule mset_eq_setD [OF keeper_candidates_perm [OF pref alt]])
  then have sub: "set (pref @ alt) \<subseteq> set playersToUse" by auto
  have "\<forall>p \<in> snd ` set (zip order (pref @ alt)). Q (p\<lparr>assignedPosition := Some ''GK''\<rparr>)"
  proof
    fix p assume "p \<in> snd ` set (zip order (pref @ alt))"
    then obtain i where "(i, p) \<in> set (zip order (pref @ alt))" by force
    then have "p \<in> set (pref @ alt)" by (rule set_zip_rightD)
    then have "p \<in> set playersToUse" using sub by blast
    then show "Q (p\<lparr>assignedPosition := Some ''GK''\<rparr>)" by (rule Q)
  qed
  moreover have "on_sheets Q (teams (init_state numTeams targetTeamSizes c d))"
    by (simp add: on_sheets_def list_all_iff new_team_def)
  ultimately have "on_sheets Q (teams s1)"
    by (rule assign_goalkeepers_sheets [OF ag, rotated])
  then have "on_sheets Q (teams s2)"
    using pool Q by (intro snake_draft_sheets [OF sd]) auto
  moreover have "set rem \<subseteq> set playersToUse"
    using mset_eq_setD [OF rem] by auto
  ultimately have "on_sheets Q (teams (sweep rem s2))"
    using Q by (intro sweep_sheets) auto
  then have "on_sheets Q (map calculate_stats (teams (sweep rem s2)))"
    using str by (rule on_sheets_calculate_stats)
  then show ?thesis
    using createBalancedTeamsWithSizeControl_Inr [OF run] by simp
qed

section \<open>Rating aggregation\<close>

lemma fold_rating_sum:
  "fold (\<lambda>player sum. sum + f player) ps a = a + sum_list (map f ps)"
  for f :: "player \<Rightarrow> int"
  by (induction ps arbitrary: a) simp_all

lemma calculate_stats_ratings:
  "totalRating (calculate_stats t)
     = sum_list (map getPlayerOverallRating (players (calculate_stats t)))"
  "averageRating (calculate_stats t)
     = (if players (calculate_stats t) = [] then Number 0
        else toFixed1 (double_div (totalRating (calculate_stats t))
                         (length (players (calculate_stats t)))))"
  by (simp_all add: calculate_stats_def Let_def fold_rating_sum)

subsection \<open>The double quotient\<close>

lemma round_half_even_error: "\<bar>of_int (round_half_even x) - x\<bar> \<le> 1 / 2"
proof -
  define f where "f = \<lfloor>x\<rfloor>"
  have lo: "of_int f \<le> x" and hi: "x < of_int f + 1"
    unfolding f_def by linarith+
  show ?thesis
    unfolding round_half_even_def Let_def f_def [symmetric]
    using lo hi by (auto simp: abs_le_iff)
qed

lemma round_half_even_nonneg: "0 \<le> x \<Longrightarrow> 0 \<le> round_half_even x"
  unfolding round_half_even_def Let_def by (auto simp: le_floor_iff intro: add_nonneg_nonneg)

lemma binade_lower:
  assumes "0 < a" "0 < b"
  shows "2 powi (binade a b) * of_int b \<le> (of_int a :: rat)"
proof -
  define fa where "fa = floorlog 2 (nat a)"
  define fb where "fb = floorlog 2 (nat b)"
  have a: "2 ^ (fa - 1) \<le> nat a" and b: "nat b < 2 ^ fb"
    using floorlog_bounds [of "nat a" 2] floorlog_bounds [of "nat b" 2] assms
    by (simp_all add: fa_def fb_def)
  have fa: "0 < fa" using assms by (simp add: fa_def floorlog_def)
  have a': "(2::rat) ^ (fa - 1) \<le> of_int a"
  proof -
    have "of_nat (2 ^ (fa - 1)) \<le> (of_nat (nat a) :: rat)" using a by (simp only: of_nat_le_iff)
    then show ?thesis using assms by simp
  qed
  have b': "of_int b < (2::rat) ^ fb"
  proof -
    have "(of_nat (nat b) :: rat) < of_nat (2 ^ fb)" using b by (simp only: of_nat_less_iff)
    then show ?thesis using assms by simp
  qed
  have "2 powi (int fa - int fb - 1) * of_int b \<le> (2::rat) powi (int fa - int fb - 1) * 2 ^ fb"
    using b' by (intro mult_left_mono) simp_all
  also have "\<dots> = 2 powi (int fa - int fb - 1) * 2 powi (int fb)" by simp
  also have "\<dots> = 2 powi ((int fa - int fb - 1) + int fb)"
    by (rule power_int_add [symmetric]) simp
  also have "\<dots> = 2 powi (int fa - 1)" by simp
  also have "\<dots> = 2 ^ (fa - 1)"
  proof -
    have "int fa - 1 = int (fa - 1)" using fa by simp
    then show ?thesis by (simp only: power_int_of_nat)
  qed
  also have "\<dots> \<le> of_int a" by (rule a')
  finally have low: "2 powi (int fa - int fb - 1) * of_int b \<le> (of_int a :: rat)" .
  show ?thesis
    unfolding binade_def Let_def fa_def [symmetric] fb_def [symmetric]
    using low by simp
qed

text \<open>
  For a positive total with \<open>20 * total < 2^53\<close> and fewer than \<open>2^32\<close> players, the
  double quotient is not negative and misses the exact quotient by less than
  \<open>1 / (20 * players)\<close>.
\<close>

lemma double_div_error:
  assumes a: "0 < a" and b: "0 < b" and b32: "b < 2 ^ 32" and a53: "20 * a < 2 ^ 53"
  shows "0 \<le> double_div a b"
    and "\<bar>double_div a b * of_nat b - of_int a\<bar> * 20 < 1"
proof -
  define B :: rat where "B = of_int (int b)"
  define A :: rat where "A = of_int a"
  define e where "e = max (binade \<bar>a\<bar> (int b)) (- 1022)"
  define u :: rat where "u = 2 powi (e - 52)"
  define m where "m = round_half_even (A / B / u)"
  have B0: "0 < B" using b by (simp add: B_def)
  have A0: "0 < A" using a by (simp add: A_def)
  have u0: "0 < u" by (simp add: u_def)
  have dd: "double_div a b = of_int m * u"
    using a by (simp add: double_div_def Let_def m_def u_def e_def A_def B_def)
  have m0: "0 \<le> m"
    unfolding m_def using A0 B0 u0 by (intro round_half_even_nonneg) simp
  show "0 \<le> double_div a b" unfolding dd using m0 u0 by simp
  have "\<bar>of_int m - A / B / u\<bar> \<le> 1 / 2" unfolding m_def by (rule round_half_even_error)
  then have "\<bar>of_int m - A / B / u\<bar> * (u * B) \<le> 1 / 2 * (u * B)"
    using u0 B0 by (intro mult_right_mono) simp_all
  moreover have "\<bar>of_int m - A / B / u\<bar> * (u * B) = \<bar>of_int m * u * B - A\<bar>"
  proof -
    have "\<bar>of_int m - A / B / u\<bar> * (u * B) = \<bar>(of_int m - A / B / u) * (u * B)\<bar>"
      using u0 B0 by (simp add: abs_mult)
    also have "(of_int m - A / B / u) * (u * B) = of_int m * u * B - A"
      using u0 B0 by (simp add: field_simps)
    finally show ?thesis .
  qed
  ultimately have err: "\<bar>of_int m * u * B - A\<bar> \<le> u * B / 2" by simp
  have uB: "u * B * 10 < 1"
  proof (cases "- 1022 \<le> binade \<bar>a\<bar> (int b)")
    case True
    then have "e = binade a (int b)" using a by (simp add: e_def)
    define p :: rat where "p = 2 powi (- 52)"
    have p0: "0 \<le> p" and pp: "0 < p" and pv: "p * 2 ^ 52 = 1"
      by (simp_all add: p_def power_int_minus)
    have "u = 2 powi (binade a (int b) + (- 52))" using \<open>e = binade a (int b)\<close> by (simp add: u_def)
    also have "\<dots> = 2 powi (binade a (int b)) * p"
      unfolding p_def by (rule power_int_add) simp
    finally have "u * B = p * (2 powi (binade a (int b)) * B)" by simp
    also have "\<dots> \<le> p * A"
      unfolding A_def B_def using binade_lower [of a "int b"] a b p0
      by (intro mult_left_mono) simp_all
    finally have le: "u * B \<le> p * A" .
    have "A * 20 < 2 ^ 53"
    proof -
      have "(of_int (20 * a) :: rat) < of_int (2 ^ 53)" using a53 by (simp only: of_int_less_iff)
      then show ?thesis by (simp add: A_def)
    qed
    then have A52: "A * 10 < 2 ^ 52" by simp
    have "p * A * 10 = p * (A * 10)" by simp
    also have "\<dots> < p * 2 ^ 52" using A52 pp by (rule mult_strict_left_mono)
    also have "\<dots> = 1" by (rule pv)
    finally have "p * A * 10 < 1" .
    with le show ?thesis by linarith
  next
    case False
    then have uv: "u = 2 powi (- 1074)" by (simp add: u_def e_def)
    have B32: "B < 2 ^ 32"
    proof -
      have "(of_nat b :: rat) < of_nat (2 ^ 32)" using b32 by (simp only: of_nat_less_iff)
      then show ?thesis by (simp add: B_def)
    qed
    have top: "u * 2 ^ 1074 = 1" using uv by (simp add: power_int_minus)
    have "u * B * 10 \<le> u * (2 ^ 32 * 10)" using B32 u0 by simp
    also have "\<dots> < u * 2 ^ 1074" using u0 by (intro mult_strict_left_mono) simp_all
    also have "\<dots> = 1" by (rule top)
    finally show ?thesis .
  qed
  define Z where "Z = \<bar>of_int m * u * B - A\<bar>"
  define UB where "UB = u * B"
  have "Z \<le> UB / 2" and "UB * 10 < 1" using err uB by (simp_all only: Z_def UB_def)
  then have "Z * 20 < 1" by linarith
  then have "\<bar>of_int m * u * B - A\<bar> * 20 < 1" by (simp only: Z_def)
  then show "\<bar>double_div a b * of_nat b - of_int a\<bar> * 20 < 1"
    by (simp add: dd A_def B_def)
qed

text \<open>
  \<open>toFixed(1)\<close> of a value that close to the exact quotient is a tenth nearest to the
  exact quotient.
\<close>

lemma toFixed1_near_quotient:
  assumes b: "0 < b" and d0: "0 \<le> d"
    and close: "\<bar>d * of_nat b - of_int a\<bar> * 20 < 1"
  shows "\<exists>n. toFixed1 d = Fixed1 n
             \<and> \<bar>of_int n / 10 - of_int a / of_nat b\<bar> \<le> (1 / 20 :: rat)"
proof -
  define B :: rat where "B = of_nat b"
  define A :: rat where "A = of_int a"
  define n where "n = \<lfloor>d * 10 + 1 / 2\<rfloor>"
  define N :: rat where "N = of_int n"
  have B0: "0 < B" using b by (simp add: B_def)
  have lo: "N \<le> d * 10 + 1 / 2" and hi: "d * 10 + 1 / 2 < N + 1"
    unfolding N_def n_def by linarith+
  have "\<bar>(d * B - A) * 20\<bar> = \<bar>d * B - A\<bar> * \<bar>20\<bar>" by (rule abs_mult)
  also have "\<dots> = \<bar>d * B - A\<bar> * 20" by simp
  also have "\<dots> < 1" using close by (simp only: A_def B_def)
  finally have c1: "(d * B - A) * 20 < 1" and c2: "- 1 < (d * B - A) * 20"
    by (simp_all only: abs_less_iff) linarith+
  define NB where "NB = N * B"
  define X where "X = d * B"
  have c1': "20 * X - 20 * A < 1" and c2': "- 1 < 20 * X - 20 * A"
    using c1 c2 by (simp_all add: X_def algebra_simps)
  have "N * B \<le> (d * 10 + 1 / 2) * B" using lo B0 by (intro mult_right_mono) simp_all
  then have l1: "2 * NB \<le> 20 * X + B" by (simp add: algebra_simps NB_def X_def)
  have "(d * 10 + 1 / 2) * B < (N + 1) * B" using hi B0 by (intro mult_strict_right_mono)
  then have h1: "20 * X - B < 2 * NB" by (simp add: algebra_simps NB_def X_def)
  have nb: "NB = of_int (n * int b)" by (simp add: NB_def N_def B_def)
  have "2 * NB - 20 * A - B < 1" using l1 c1' by linarith
  then have "(of_int (2 * (n * int b) - 20 * a - int b) :: rat) < of_int 1"
    by (simp add: nb A_def B_def)
  then have "2 * (n * int b) - 20 * a - int b < 1" by (simp only: of_int_less_iff)
  then have "(of_int (2 * (n * int b) - 20 * a - int b) :: rat) \<le> of_int 0"
    by (simp only: of_int_le_iff)
  then have up': "2 * NB - 20 * A \<le> B" by (simp add: nb A_def B_def)
  have "- 1 < 2 * NB - 20 * A + B" using h1 c2' by linarith
  then have "(of_int (- 1) :: rat) < of_int (2 * (n * int b) - 20 * a + int b)"
    by (simp add: nb A_def B_def)
  then have "- 1 < 2 * (n * int b) - 20 * a + int b" by (simp only: of_int_less_iff)
  then have "(of_int 0 :: rat) \<le> of_int (2 * (n * int b) - 20 * a + int b)"
    by (simp only: of_int_le_iff)
  then have dn': "- B \<le> 2 * NB - 20 * A" by (simp add: nb A_def B_def)
  have up: "2 * N * B - 20 * A \<le> B" and dn: "- B \<le> 2 * N * B - 20 * A"
    using up' dn' by (simp_all add: NB_def)
  define Y where "Y = (2 * N * B - 20 * A) / (20 * B)"
  have eq: "N / 10 - A / B = Y"
    unfolding Y_def using B0 by (simp add: field_simps)
  have "Y \<le> 1 / 20" unfolding Y_def using up B0 by (simp add: field_simps)
  moreover have "- (1 / 20) \<le> Y" unfolding Y_def using dn B0 by (simp add: field_simps)
  then have "- Y \<le> 1 / 20" by linarith
  ultimately have "\<bar>Y\<bar> \<le> 1 / 20" by (rule abs_leI)
  then have "\<bar>N / 10 - A / B\<bar> \<le> 1 / 20" by (simp only: eq)
  moreover have "toFixed1 d = Fixed1 n" using d0 by (simp add: toFixed1_def n_def)
  ultimately show ?thesis unfolding N_def A_def B_def by blast
qed

lemma rated_survives:
  "rated (p\<lparr>assignedPosition := pos\<rparr>) = rated p" "rated (strip p) = rated p"
  by (simp_all add: rated_def getPlayerOverallRating_def strip_def)

lemma rated_sum:
  "list_all rated ps \<Longrightarrow>
   int (length ps) \<le> sum_list (map getPlayerOverallRating ps)
   \<and> sum_list (map getPlayerOverallRating ps) \<le> 99 * int (length ps)"
  by (induction ps) (auto simp: rated_def)

text \<open>
  The average of a team of fewer than \<open>2^32\<close> players with ratings from 1 to 99: the
  double quotient, passed through \<open>toFixed(1)\<close>, is a tenth nearest to the exact
  quotient.
\<close>

lemma average_of_rated:
  assumes "list_all rated ps" "ps \<noteq> []" "length ps < 2 ^ 32"
  shows "\<exists>n. toFixed1 (double_div (sum_list (map getPlayerOverallRating ps)) (length ps)) = Fixed1 n
             \<and> \<bar>of_int n / 10 - of_int (sum_list (map getPlayerOverallRating ps))
                                   / of_nat (length ps)\<bar> \<le> (1 / 20 :: rat)"
proof -
  let ?a = "sum_list (map getPlayerOverallRating ps)"
  let ?b = "length ps"
  have b: "0 < ?b" using assms(2) by simp
  have lo: "int ?b \<le> ?a" and hi: "?a \<le> 99 * int ?b"
    using rated_sum [OF assms(1)] by simp_all
  have a: "0 < ?a" using lo b by linarith
  have "int ?b < 2 ^ 32"
  proof -
    have "int ?b < int (2 ^ 32)" using assms(3) by (simp only: of_nat_less_iff)
    then show ?thesis by simp
  qed
  then have a53: "20 * ?a < 2 ^ 53" using hi by simp
  from double_div_error [OF a b assms(3) a53] toFixed1_near_quotient [OF b]
  show ?thesis by blast
qed

text \<open>
  C6. In every returned team no player carries a rating adjustment, \<open>totalRating\<close> is
  the sum of \<open>getPlayerOverallRating\<close> over the team's players, and \<open>averageRating\<close>
  is \<open>0\<close> for an empty team and otherwise the double \<open>totalRating / players.length\<close>
  passed through \<open>toFixed(1)\<close>. When the input players are rated from 1 to 99, the
  average of a non-empty team (of fewer than \<open>2^32\<close> players, as every array) is a
  numeral with one decimal that differs from the exact quotient by at most 0.05: the
  quotient rounded to one decimal place.
\<close>

theorem rating_aggregation:
  "\<exists>ts. createBalancedTeamsWithSizeControl numTeams targetTeamSizes playersToUse g = Inr ts
      \<and> list_all
           (\<lambda>t. list_all (\<lambda>p. tempRatingAdjustment p = None) (players t)
               \<and> totalRating t = sum_list (map getPlayerOverallRating (players t))
               \<and> averageRating t
                   = (if players t = [] then Number 0
                      else toFixed1 (double_div (totalRating t) (length (players t))))
               \<and> (list_all rated playersToUse \<and> players t \<noteq> [] \<and> length (players t) < 2 ^ 32
                    \<longrightarrow> (case averageRating t of
                           Fixed1 n \<Rightarrow>
                             \<bar>of_int n / 10
                                - of_int (totalRating t) / of_nat (length (players t))\<bar>
                               \<le> (1 / 20 :: rat)
                         | Number z \<Rightarrow> False)))
           ts"
proof -
  from run_phases_decompose
    [where n = numTeams and sizes = targetTeamSizes and ps = playersToUse and g = g]
  obtain s where run: "run_phases numTeams targetTeamSizes playersToUse g = Inr s" by blast
  let ?ts = "map calculate_stats (teams s)"
  have res: "createBalancedTeamsWithSizeControl numTeams targetTeamSizes playersToUse g = Inr ?ts"
    by (rule createBalancedTeamsWithSizeControl_Inr [OF run])
  have sheets: "on_sheets rated ?ts" if "list_all rated playersToUse"
  proof -
    from returned_sheets [of rated playersToUse numTeams targetTeamSizes g] that
    obtain ts where
      "createBalancedTeamsWithSizeControl numTeams targetTeamSizes playersToUse g = Inr ts"
      and "on_sheets rated ts"
      by (auto simp: rated_survives)
    then show ?thesis using res by simp
  qed
  have "list_all (\<lambda>p. tempRatingAdjustment p = None) (players t)
        \<and> totalRating t = sum_list (map getPlayerOverallRating (players t))
        \<and> averageRating t
            = (if players t = [] then Number 0
               else toFixed1 (double_div (totalRating t) (length (players t))))
        \<and> (list_all rated playersToUse \<and> players t \<noteq> [] \<and> length (players t) < 2 ^ 32
             \<longrightarrow> (case averageRating t of
                    Fixed1 n \<Rightarrow>
                      \<bar>of_int n / 10 - of_int (totalRating t) / of_nat (length (players t))\<bar>
                        \<le> (1 / 20 :: rat)
                  | Number z \<Rightarrow> False))"
    if t: "t \<in> set ?ts" for t
  proof -
    from t obtain t0 where t0: "t = calculate_stats t0" by auto
    have a: "list_all (\<lambda>p. tempRatingAdjustment p = None) (players t)"
      unfolding t0 by (simp add: list_all_iff)
    have b: "totalRating t = sum_list (map getPlayerOverallRating (players t))"
      unfolding t0 by (rule calculate_stats_ratings(1))
    have c: "averageRating t
            = (if players t = [] then Number 0
               else toFixed1 (double_div (totalRating t) (length (players t))))"
      unfolding t0 by (rule calculate_stats_ratings(2))
    have d: "case averageRating t of
               Fixed1 n \<Rightarrow>
                 \<bar>of_int n / 10 - of_int (totalRating t) / of_nat (length (players t))\<bar>
                   \<le> (1 / 20 :: rat)
             | Number z \<Rightarrow> False"
      if r: "list_all rated playersToUse" and ne: "players t \<noteq> []"
        and len: "length (players t) < 2 ^ 32"
    proof -
      have "list_all rated (players t)"
        using sheets [OF r] t by (simp only: on_sheets_def list_all_iff) blast
      from average_of_rated [OF this ne len] obtain n where
        "toFixed1 (double_div (sum_list (map getPlayerOverallRating (players t)))
                     (length (players t))) = Fixed1 n"
        and "\<bar>of_int n / 10 - of_int (sum_list (map getPlayerOverallRating (players t)))
                                  / of_nat (length (players t))\<bar> \<le> (1 / 20 :: rat)"
        by blast
      then show ?thesis using ne by (simp add: c b [symmetric])
    qed
    from a b c d show ?thesis by blast
  qed
  then show ?thesis
    using res unfolding list_all_iff by blast
qed

section \<open>The leftover sweep\<close>












section \<open>The theorems on example inputs\<close>

theorem no_double_assignment_witness:
  "distinct (map player_id example_squad)
   \<and> (\<exists>ts. createBalancedTeamsWithSizeControl 2 (calculateTeamSizes 5 2) example_squad
               example_draws = Inr ts
            \<and> distinct (assigned_ids ts)
            \<and> assigned_ids ts = [4, 2, 5, 1, 3])"
proof -
  have h: "distinct (map player_id example_squad)"
    by (simp add: example_squad_def example_player_def)
  have e: "map_sum id assigned_ids
             (createBalancedTeamsWithSizeControl 2 (calculateTeamSizes 5 2) example_squad
                example_draws) = Inr [4, 2, 5, 1, 3]"
    by code_simp
  from no_double_assignment [OF h, of 2 "calculateTeamSizes 5 2" example_draws]
  obtain ts where
    "createBalancedTeamsWithSizeControl 2 (calculateTeamSizes 5 2) example_squad example_draws
       = Inr ts"
    and "distinct (assigned_ids ts)" by blast
  with h e show ?thesis by simp
qed

theorem formation_capacity_witness:
  "\<exists>ts. createBalancedTeamsWithSizeControl 2 (calculateTeamSizes 5 2) example_squad
           example_draws = Inr ts
        \<and> list_all caps_ok ts
        \<and> map (\<lambda>t. (length (defenders (formation t)), length (midfielders (formation t)),
                     length (forwards (formation t)))) ts = [(0, 2, 0), (0, 0, 1)]"
proof -
  have e: "map_sum id (map (\<lambda>t. (length (defenders (formation t)),
                                  length (midfielders (formation t)),
                                  length (forwards (formation t)))))
             (createBalancedTeamsWithSizeControl 2 (calculateTeamSizes 5 2) example_squad
                example_draws) = Inr [(0, 2, 0), (0, 0, 1)]"
    by code_simp
  from formation_capacity [of 2 "calculateTeamSizes 5 2" example_squad example_draws]
  obtain ts where
    "createBalancedTeamsWithSizeControl 2 (calculateTeamSizes 5 2) example_squad example_draws
       = Inr ts"
    and "list_all caps_ok ts" by blast
  with e show ?thesis by simp
qed

theorem goalkeeper_allocation_witness:
  "(\<exists>ts. createBalancedTeamsWithSizeControl 2 (calculateTeamSizes 5 2) example_squad
            example_draws = Inr ts
         \<and> list_ex (\<lambda>k. preferredPosition k \<noteq> ''GK'') (team_keepers ts)
         \<and> as_keeper (example_player 1 [''GK''] ''GK'' (Some 80) None) \<in> set (team_keepers ts))
   \<and> 1 \<le> length (filter (\<lambda>p. ''GK'' \<in> set (positions p) \<and> preferredPosition p = ''GK'')
                    example_squad)
   \<and> (\<exists>ts. createBalancedTeamsWithSizeControl 1 (calculateTeamSizes 5 1) example_squad
              example_draws = Inr ts
           \<and> list_all (\<lambda>k. preferredPosition k = ''GK'') (team_keepers ts))"
proof -
  let ?p1 = "example_player 1 [''GK''] ''GK'' (Some 80) None"
  have e: "map_sum id (\<lambda>ts. list_ex (\<lambda>k. preferredPosition k \<noteq> ''GK'') (team_keepers ts))
             (createBalancedTeamsWithSizeControl 2 (calculateTeamSizes 5 2) example_squad
                example_draws) = Inr True"
    by code_simp
  from goalkeeper_allocation [of 2 "calculateTeamSizes 5 2" example_squad example_draws]
  obtain ts where
    r: "createBalancedTeamsWithSizeControl 2 (calculateTeamSizes 5 2) example_squad example_draws
          = Inr ts"
    and imp: "list_ex (\<lambda>k. preferredPosition k \<noteq> ''GK'') (team_keepers ts) \<longrightarrow>
          list_all (\<lambda>p. ''GK'' \<in> set (positions p) \<and> preferredPosition p = ''GK''
                         \<longrightarrow> as_keeper p \<in> set (team_keepers ts)) example_squad"
    by blast
  have ex: "list_ex (\<lambda>k. preferredPosition k \<noteq> ''GK'') (team_keepers ts)"
    using e r by simp
  have "?p1 \<in> set example_squad" by (simp add: example_squad_def)
  moreover have "''GK'' \<in> set (positions ?p1) \<and> preferredPosition ?p1 = ''GK''"
    by (simp add: example_player_def)
  ultimately have k: "as_keeper ?p1 \<in> set (team_keepers ts)"
    using imp ex unfolding list_all_iff by blast
  have h: "1 \<le> length (filter (\<lambda>p. ''GK'' \<in> set (positions p) \<and> preferredPosition p = ''GK'')
                      example_squad)"
    by (simp add: example_squad_def example_player_def)
  from goalkeeper_allocation [of 1 "calculateTeamSizes 5 1" example_squad example_draws] h
  obtain ts' where
    "createBalancedTeamsWithSizeControl 1 (calculateTeamSizes 5 1) example_squad example_draws
       = Inr ts'"
    and "list_all (\<lambda>k. preferredPosition k = ''GK'') (team_keepers ts')"
    by blast
  with r ex k h show ?thesis by blast
qed

theorem rating_aggregation_witness:
  "list_all rated example_twenty
   \<and> (\<exists>ts. createBalancedTeamsWithSizeControl 1 [20] example_twenty example_draws = Inr ts
           \<and> map (\<lambda>t. (length (players t), totalRating t, averageRating t)) ts
               = [(20, 1501, Fixed1 750)]
           \<and> list_all (\<lambda>t. totalRating t = sum_list (map getPlayerOverallRating (players t))
                            \<and> (case averageRating t of
                                  Fixed1 n \<Rightarrow>
                                    \<bar>of_int n / 10
                                       - of_int (totalRating t) / of_nat (length (players t))\<bar>
                                      \<le> (1 / 20 :: rat)
                                | Number z \<Rightarrow> False)) ts)"
proof -
  have h: "list_all rated example_twenty" by code_simp
  have e: "map_sum id (map (\<lambda>t. (length (players t), totalRating t, averageRating t)))
             (createBalancedTeamsWithSizeControl 1 [20] example_twenty example_draws)
           = Inr [(20, 1501, Fixed1 750)]"
    by code_simp
  from rating_aggregation [of 1 "[20]" example_twenty example_draws]
  obtain ts where
    r: "createBalancedTeamsWithSizeControl 1 [20] example_twenty example_draws = Inr ts"
    and a: "list_all
           (\<lambda>t. list_all (\<lambda>p. tempRatingAdjustment p = None) (players t)
               \<and> totalRating t = sum_list (map getPlayerOverallRating (players t))
               \<and> averageRating t
                   = (if players t = [] then Number 0
                      else toFixed1 (double_div (totalRating t) (length (players t))))
               \<and> (list_all rated example_twenty \<and> players t \<noteq> [] \<and> length (players t) < 2 ^ 32
                    \<longrightarrow> (case averageRating t of
                           Fixed1 n \<Rightarrow>
                             \<bar>of_int n / 10
                                - of_int (totalRating t) / of_nat (length (players t))\<bar>
                               \<le> (1 / 20 :: rat)
                         | Number z \<Rightarrow> False)))
           ts"
    by blast
  have v: "map (\<lambda>t. (length (players t), totalRating t, averageRating t)) ts
           = [(20, 1501, Fixed1 750)]"
    using e r by simp
  then have "\<forall>t \<in> set ts. length (players t) = 20" by auto
  then have "\<forall>t \<in> set ts. players t \<noteq> [] \<and> length (players t) < 2 ^ 32" by auto
  with a h have l:
    "list_all (\<lambda>t. totalRating t = sum_list (map getPlayerOverallRating (players t))
                   \<and> (case averageRating t of
                         Fixed1 n \<Rightarrow>
                           \<bar>of_int n / 10
                              - of_int (totalRating t) / of_nat (length (players t))\<bar>
                             \<le> (1 / 20 :: rat)
                       | Number z \<Rightarrow> False)) ts"
    unfolding list_all_iff by blast
  show ?thesis
    by (rule conjI [OF h], rule exI [of _ ts], intro conjI) (rule r v l)+
qed


section \<open>The size cap\<close>

text \<open>
  What does hold of the target sizes: phase 1 gives a team at most one player, and
  phases 2 and 3 add a player only to a team that has not reached its target size. So a
  returned team with a target size has at most \<open>max targetSize 1\<close> players.
\<close>

lemma draft_steps_list_all_room:
  assumes "draft_steps fresh s s'" and "list_all Q (teams s)"
    and "\<And>t p t'. Q t \<Longrightarrow> \<not> reached_target t \<Longrightarrow> team_grows t p t' \<Longrightarrow> Q t'"
  shows "list_all Q (teams s')"
  using assms(1,2)
proof (induction rule: draft_steps.induct)
  case (steps_refl fresh s)
  then show ?case .
next
  case (steps_cursor fresh s s' c d)
  then show ?case by simp
next
  case (steps_assign fresh s s' i p t')
  have all: "list_all Q (teams s')" using steps_assign by simp
  then have "Q (teams s' ! i)"
    using steps_assign.hyps(2) by (simp add: list_all_length)
  then have "Q t'" using assms(3) steps_assign.hyps(3,4) by blast
  then have "list_all Q ((teams s')[i := t'])"
    using all by (auto simp: list_all_iff dest: subsetD [OF set_update_subset_insert])
  then show ?case by simp
qed

lemma size_ok_grows:
  "size_ok t \<Longrightarrow> \<not> reached_target t \<Longrightarrow> team_grows t p t' \<Longrightarrow> size_ok t'"
  by (auto simp: size_ok_def reached_target_def team_grows_def split: option.splits)

lemma assign_goalkeepers_one_each:
  "assign_goalkeepers pairs s = Inr s' \<Longrightarrow> distinct (map fst pairs)
   \<Longrightarrow> \<forall>i \<in> fst ` set pairs. players (teams s ! i) = []
   \<Longrightarrow> list_all (\<lambda>t. length (players t) \<le> 1) (teams s)
   \<Longrightarrow> list_all (\<lambda>t. length (players t) \<le> 1) (teams s')"
proof (induction pairs arbitrary: s)
  case Nil
  then show ?case by simp
next
  case (Cons a pairs)
  obtain i p where a: "a = (i, p)" by (cases a)
  let ?p = "p\<lparr>assignedPosition := Some ''GK''\<rparr>"
  let ?s1 = "s\<lparr>teams := (teams s)[i := set_goalkeeper ?p (teams s ! i)],
              assignedPlayers := insert (player_id p) (assignedPlayers s)\<rparr>"
  from Cons.prems(1) a have i: "i < length (teams s)" and r: "assign_goalkeepers pairs ?s1 = Inr s'"
    by (auto split: if_splits)
  have d: "distinct (map fst pairs)" and ni: "i \<notin> fst ` set pairs"
    using Cons.prems(2) a by auto
  have "i \<in> fst ` set (a # pairs)" using a by simp
  then have empty: "players (teams s ! i) = []" by (rule bspec [OF Cons.prems(3)])
  have rest: "\<forall>j \<in> fst ` set pairs. players (teams ?s1 ! j) = []"
  proof
    fix j assume j: "j \<in> fst ` set pairs"
    then have ne: "i \<noteq> j" using ni by blast
    have "j \<in> fst ` set (a # pairs)" using j by simp
    then have old: "players (teams s ! j) = []" by (rule bspec [OF Cons.prems(3)])
    have "teams ?s1 ! j = teams s ! j"
      using nth_list_update_neq [OF ne] by simp
    then show "players (teams ?s1 ! j) = []" using old by simp
  qed
  have "length (players (set_goalkeeper ?p (teams s ! i))) \<le> 1"
    using empty by (simp add: set_goalkeeper_def)
  then have "list_all (\<lambda>t. length (players t) \<le> 1) (teams ?s1)"
    using Cons.prems(4) by (auto simp: list_all_iff dest: subsetD [OF set_update_subset_insert])
  from Cons.IH [OF r d rest this] show ?case .
qed

lemma size_ok_calculate_stats [simp]: "size_ok (calculate_stats t) = size_ok t"
  by (simp add: size_ok_def split: option.splits)

lemma size_cap_up_to_goalkeeper:
  "\<exists>ts. createBalancedTeamsWithSizeControl numTeams targetTeamSizes playersToUse g = Inr ts
        \<and> list_all size_ok ts"
proof -
  from run_phases_decompose
    [where n = numTeams and sizes = targetTeamSizes and ps = playersToUse and g = g]
  obtain c d order pref alt s1 s2 rem where
    order: "mset order = mset [0..<numTeams]"
    and ag: "assign_goalkeepers (zip order (pref @ alt)) (init_state numTeams targetTeamSizes c d)
             = Inr s1"
    and st: "draft_steps True s1 s2"
    and run: "run_phases numTeams targetTeamSizes playersToUse g = Inr (sweep rem s2)"
    by blast
  let ?pairs = "zip order (pref @ alt)"
  let ?s0 = "init_state numTeams targetTeamSizes c d"
  have st3: "draft_steps False s2 (sweep rem s2)" by (intro sweep_steps steps_refl) simp
  have so: "set order = {0..<numTeams}" using mset_eq_setD [OF order] by simp
  have "distinct order" using mset_eq_imp_distinct_iff [OF order] by simp
  then have "distinct (take (min (length order) (length (pref @ alt))) order)"
    by (rule distinct_take)
  then have dfst: "distinct (map fst ?pairs)" by (simp only: map_fst_zip_take)
  have empty: "\<forall>i \<in> fst ` set ?pairs. players (teams ?s0 ! i) = []"
  proof
    fix i assume "i \<in> fst ` set ?pairs"
    then have "i \<in> set order" by (auto dest: set_zip_leftD)
    then have "i < numTeams" using so by simp
    then show "players (teams ?s0 ! i) = []" by (simp add: new_team_def)
  qed
  have "list_all (\<lambda>t. length (players t) \<le> 1) (teams ?s0)"
    by (simp add: list_all_iff new_team_def)
  from assign_goalkeepers_one_each [OF ag dfst empty this]
  have "list_all size_ok (teams s1)"
    by (auto simp: list_all_iff size_ok_def split: option.splits)
  then have "list_all size_ok (teams s2)"
    by (rule draft_steps_list_all_room [OF st _ size_ok_grows])
  then have "list_all size_ok (teams (sweep rem s2))"
    by (rule draft_steps_list_all_room [OF st3 _ size_ok_grows])
  then have "list_all size_ok (map calculate_stats (teams (sweep rem s2)))"
    by (simp add: list_all_iff)
  then show ?thesis
    using createBalancedTeamsWithSizeControl_Inr [OF run] by simp
qed

section \<open>The goalkeeper phase and the target size\<close>

text \<open>
  C2. The claim that every team ends with \<open>players.length <= targetSize\<close>, a team of
  target size 0 receiving no player in any phase, fails in the goalkeeper phase, which
  does not look at \<open>targetSize\<close>: with two teams, one goalkeeper as the only player
  (target sizes 1 and 0, as \<open>generateTeams\<close> computes them) and a team order that puts
  the second team first, the goalkeeper is given to the team of target size 0.
\<close>

theorem goalkeeper_exceeds_target_size:
  "generateTeams_sizes 1 2 = [1, 0]
   \<and> map_sum id (map (\<lambda>t. (map player_id (players t), targetSize t, within_target t)))
       (createBalancedTeamsWithSizeControl 2 (generateTeams_sizes 1 2)
          [example_player 1 [''GK''] ''GK'' (Some 80) None] [0, 0, 0])
     = Inr [([], Some 1, True), ([1], Some 0, False)]"
  by code_simp

end
